theory Spec2Isabelle
  imports Main "HOL-Library.Word" "HOL-Library.Multiset"
begin

unbundle bit_operations_syntax

section \<open>Board model (Hex\_utils.py)\<close>

text \<open>
  The board is a Python list of rows, each row a list of integers: 0 for an empty cell,
  1 and -1 for the two players. \<open>SIZE = 4\<close>. A cell is addressed by the linear index
  \<open>row * SIZE + col\<close>. Rows are distinct list objects (as \<open>initialize_board\<close> builds
  them), so the board is modelled as a value of type \<open>int list list\<close>.

  The functions that traverse the board index it with cell numbers they produce
  themselves (from \<open>range\<close> and from \<open>get_neighbors\<close>); on a well-formed board, four
  rows of four cells, every such index is in range. They are modelled with plain list
  indexing, and the properties about them are stated for well-formed boards.
\<close>

type_synonym board = "int list list"

abbreviation SIZE :: nat where
  "SIZE \<equiv> 4"

definition wf_board :: "board \<Rightarrow> bool" where
  "wf_board board \<longleftrightarrow> length board = SIZE \<and> (\<forall>row \<in> set board. length row = SIZE)"

text \<open>\<open>board[cell // SIZE][cell % SIZE]\<close> for a cell index produced by \<open>range\<close>.\<close>

definition cell_at :: "board \<Rightarrow> nat \<Rightarrow> int" where
  "cell_at board cell = board ! (cell div SIZE) ! (cell mod SIZE)"

text \<open>\<open>r, c = divmod(cell, SIZE); board[r][c] = v\<close>.\<close>

definition set_cell :: "board \<Rightarrow> nat \<Rightarrow> int \<Rightarrow> board" where
  "set_cell board cell v =
     board[cell div SIZE := (board ! (cell div SIZE))[cell mod SIZE := v]]"

definition initialize_board :: "nat \<Rightarrow> board" where
  "initialize_board n = replicate n (replicate n 0)"

text \<open>
  \<open>get_neighbors\<close>: the six axial offsets in the source's order, each kept when the
  resulting row and column are within bounds.
\<close>

definition directions :: "(int \<times> int) list" where
  "directions = [(-1, 0), (1, 0), (0, -1), (0, 1), (-1, 1), (1, -1)]"

definition get_neighbors :: "nat \<Rightarrow> nat list" where
  "get_neighbors cell =
     (let row = int (cell div SIZE); col = int (cell mod SIZE) in
      map (\<lambda>(dr, dc). nat ((row + dr) * int SIZE + (col + dc)))
        (filter (\<lambda>(dr, dc). 0 \<le> row + dr \<and> row + dr < int SIZE \<and>
                            0 \<le> col + dc \<and> col + dc < int SIZE) directions))"

subsection \<open>Legality check and move application\<close>

text \<open>
  \<open>is_valid_action\<close> and \<open>apply_action\<close> receive the action from the caller, so it is
  any Python integer. Python list indexing accepts a negative index (counting from the
  end) and raises IndexError out of range; \<open>apply_action\<close> raises ValueError on an
  occupied cell. The board is mutable state: the model returns the outcome together
  with the board as it is after the call.
\<close>

datatype error = ValueError | IndexError

definition py_norm :: "'a list \<Rightarrow> int \<Rightarrow> nat option" where
  "py_norm xs i =
     (let n = int (length xs); j = (if i < 0 then n + i else i)
      in if 0 \<le> j \<and> j < n then Some (nat j) else None)"

definition py_get :: "'a list \<Rightarrow> int \<Rightarrow> error + 'a" where
  "py_get xs i = (case py_norm xs i of None \<Rightarrow> Inl IndexError | Some j \<Rightarrow> Inr (xs ! j))"

definition is_valid_action :: "board \<Rightarrow> int \<Rightarrow> error + bool" where
  "is_valid_action board action =
     (let row = action div int SIZE; col = action mod int SIZE in
      case py_get board row of
        Inl e \<Rightarrow> Inl e
      | Inr r \<Rightarrow> (case py_get r col of Inl e \<Rightarrow> Inl e | Inr v \<Rightarrow> Inr (v = 0)))"

definition apply_action :: "board \<Rightarrow> int \<Rightarrow> int \<Rightarrow> (error + unit) \<times> board" where
  "apply_action board action player =
     (let row = action div int SIZE; col = action mod int SIZE in
      case is_valid_action board action of
        Inl e \<Rightarrow> (Inl e, board)
      | Inr ok \<Rightarrow>
          if \<not> ok then (Inl ValueError, board)
          else (case py_norm board row of
                  None \<Rightarrow> (Inl IndexError, board)
                | Some i \<Rightarrow>
                    (case py_norm (board ! i) col of
                       None \<Rightarrow> (Inl IndexError, board)
                     | Some j \<Rightarrow> (Inr (), board[i := (board ! i)[j := player]]))))"

subsection \<open>Win detection\<close>

text \<open>
  \<open>check_winner\<close> runs a depth-first traversal with an explicit stack. The Python list
  used as a stack is kept here with its top (the end of the Python list) at the head:
  \<open>stack.pop()\<close> takes the head, \<open>stack.append(n)\<close> conses, and pushing a sequence
  one by one leaves it reversed on top.
\<close>

function check_winner_loop ::
  "board \<Rightarrow> int \<Rightarrow> nat list \<Rightarrow> nat list \<Rightarrow> nat set \<Rightarrow> bool" where
  "check_winner_loop board val goal [] visited = False"
| "check_winner_loop board val goal (current # stack) visited =
     (if current \<in> set goal then True
      else if current \<notin> visited then
        check_winner_loop board val goal
          (rev (filter (\<lambda>neighbor. cell_at board neighbor = val) (get_neighbors current)) @ stack)
          (insert current visited)
      else check_winner_loop board val goal stack visited)"
  by pat_completeness auto
termination
proof (relation "measures [\<lambda>(board, val, goal, stack, visited). card ({..<20} - visited),
                          \<lambda>(board, val, goal, stack, visited). length stack]", goal_cases)
  case 1
  show ?case by simp
next
  case (2 board val goal current stack visited)
  show ?case
  proof (cases "current < 20")
    case True
    with 2 have "card ({..<20} - insert current visited) < card ({..<20} - visited)"
      by (intro psubset_card_mono) auto
    then show ?thesis by simp
  next
    case False
    then have "int (current div 4) + 1 \<ge> 5 + 1" "int (current div 4) - 1 \<ge> 4"
      by auto
    then have "get_neighbors current = []"
      by (simp add: get_neighbors_def directions_def)
    moreover have "{..<20} - insert current visited = {..<20} - visited"
      using False by auto
    ultimately show ?thesis by simp
  qed
next
  case 3
  then show ?case by simp
qed

definition check_winner :: "board \<Rightarrow> int \<Rightarrow> bool" where
  "check_winner board player =
     (let val = (if player = 1 then 1 else -1);
          start = (if player = 1
                   then filter (\<lambda>i. board ! 0 ! i = val) [0..<SIZE]
                   else filter (\<lambda>i. board ! (i div SIZE) ! 0 = val)
                          (map (\<lambda>k. k * SIZE) [0..<SIZE]));
          goal = (if player = 1
                  then filter (\<lambda>i. last board ! (i mod SIZE) = val)
                         [SIZE * (SIZE - 1)..<SIZE * SIZE]
                  else filter (\<lambda>i. last (board ! (i div SIZE)) = val)
                         (map (\<lambda>k. SIZE - 1 + k * SIZE) [0..<SIZE]))
      in check_winner_loop board val goal (rev start) {})"

section \<open>Evaluator (Hex\_ai.py)\<close>

text \<open>
  \<open>shortest_path_length\<close>: breadth-first search over the player's own stones. The
  queue holds pairs (cell, distance); a cell is marked visited when it is enqueued.
  \<open>bfs_expand\<close> is the inner \<open>for nxt in get_neighbors(current)\<close> loop.
\<close>

fun bfs_expand ::
  "board \<Rightarrow> int \<Rightarrow> int \<Rightarrow> nat list \<Rightarrow> nat set \<Rightarrow> (nat \<times> int) list
     \<Rightarrow> nat set \<times> (nat \<times> int) list" where
  "bfs_expand board target_value dist [] visited queue = (visited, queue)"
| "bfs_expand board target_value dist (nxt # rest) visited queue =
     (if cell_at board nxt = target_value \<and> nxt \<notin> visited
      then bfs_expand board target_value dist rest (insert nxt visited) (queue @ [(nxt, dist + 1)])
      else bfs_expand board target_value dist rest visited queue)"

lemma get_neighbors_bound:
  assumes "n \<in> set (get_neighbors c)"
  shows "n < 16"
proof -
  from assms obtain nr nc :: int where
    "0 \<le> nr" "nr < 4" "0 \<le> nc" "nc < 4" "n = nat (nr * 4 + nc)"
    by (auto simp: get_neighbors_def Let_def)
  then show ?thesis by linarith
qed

lemma bfs_expand_progress:
  assumes "bfs_expand board t d ns visited queue = (visited', queue')"
    and "\<forall>n \<in> set ns. n < 16"
  shows "(visited' = visited \<and> queue' = queue)
       \<or> card ({..<16} - visited') < card ({..<16} - visited)"
  using assms
proof (induction ns arbitrary: visited queue)
  case Nil
  then show ?case by simp
next
  case (Cons n ns)
  show ?case
  proof (cases "cell_at board n = t \<and> n \<notin> visited")
    case True
    with Cons.prems have e: "bfs_expand board t d ns (insert n visited) (queue @ [(n, d + 1)])
        = (visited', queue')" by simp
    have "card ({..<16} - insert n visited) < card ({..<16} - visited)"
      using True Cons.prems(2) by (intro psubset_card_mono) auto
    moreover from Cons.IH [OF e] Cons.prems(2)
    have "card ({..<16} - visited') \<le> card ({..<16} - insert n visited)" by auto
    ultimately show ?thesis by simp
  next
    case False
    with Cons.prems have "bfs_expand board t d ns visited queue = (visited', queue')"
      by auto
    from Cons.IH [OF this] Cons.prems(2) show ?thesis by simp
  qed
qed

function bfs_loop ::
  "board \<Rightarrow> int \<Rightarrow> (nat \<Rightarrow> bool) \<Rightarrow> (nat \<times> int) list \<Rightarrow> nat set \<Rightarrow> int option" where
  "bfs_loop board target_value is_goal [] visited = None"
| "bfs_loop board target_value is_goal ((current, dist) # queue) visited =
     (if is_goal current then Some dist
      else case bfs_expand board target_value dist (get_neighbors current) visited queue of
             (visited', queue') \<Rightarrow> bfs_loop board target_value is_goal queue' visited')"
  by pat_completeness auto
termination
proof (relation "measures [\<lambda>(board, t, is_goal, queue, visited). card ({..<16} - visited),
                          \<lambda>(board, t, is_goal, queue, visited). length queue]", goal_cases)
  case 1
  show ?case by simp
next
  case (2 board t is_goal current dist queue visited visited' queue')
  then have "bfs_expand board t dist (get_neighbors current) visited queue = (visited', queue')"
    by simp
  from bfs_expand_progress [OF this] get_neighbors_bound
  show ?case by auto
qed

definition shortest_path_length :: "board \<Rightarrow> int \<Rightarrow> int option" where
  "shortest_path_length board player =
     (let target_value = (if player = 1 then 1 else -1);
          starts = (if player = 1
                    then filter (\<lambda>c. board ! 0 ! c = target_value) [0..<SIZE]
                    else map (\<lambda>r. r * SIZE)
                           (filter (\<lambda>r. board ! r ! 0 = target_value) [0..<SIZE]));
          is_goal = (if player = 1
                     then (\<lambda>cell. cell div SIZE = SIZE - 1)
                     else (\<lambda>cell. cell mod SIZE = SIZE - 1))
      in bfs_loop board target_value is_goal (map (\<lambda>s. (s, 0)) starts) (set starts))"

definition evaluate_board :: "board \<Rightarrow> int \<Rightarrow> int" where
  "evaluate_board board player =
     (let sp_self = shortest_path_length board player;
          sp_opp = shortest_path_length board (- player)
      in if sp_self = None \<and> sp_opp = None then 0
         else if sp_self = None then - 9999
         else if sp_opp = None then 9999
         else the sp_opp - the sp_self)"

section \<open>Position hasher\<close>

text \<open>
  \<open>ZOBRIST_RANDOMS\<close> is a list of SIZE * SIZE pairs of 64-bit values, filled once by
  \<open>init_zobrist\<close> from a seeded generator. The values themselves are not part of the
  program text, so the table is a parameter of the model (the model starts after
  \<open>init_zobrist\<close> has run); \<open>compute_zobrist_hash\<close> reads entry 0 of a pair for a
  stone of player 1 and entry 1 for a stone of player -1.
\<close>

type_synonym zobrist = "(64 word \<times> 64 word) list"

definition compute_zobrist_hash :: "zobrist \<Rightarrow> board \<Rightarrow> 64 word" where
  "compute_zobrist_hash zr board =
     fold (\<lambda>cell_id h.
             let val = cell_at board cell_id in
             if val = 1 then h XOR fst (zr ! cell_id)
             else if val = - 1 then h XOR snd (zr ! cell_id)
             else h)
       [0..<SIZE * SIZE] 0"

section \<open>Move orderer\<close>

text \<open>
  \<open>order_moves\<close> writes each candidate into the board, evaluates, and writes 0 back;
  the board is threaded through. \<open>list.sort(key, reverse=True)\<close> is a stable sort by
  descending key: elements with equal keys keep their input order, which is what
  \<open>sort_key\<close> on the negated key does.
\<close>

fun score_actions :: "board \<Rightarrow> nat list \<Rightarrow> int \<Rightarrow> (nat \<times> int) list \<times> board" where
  "score_actions board [] player = ([], board)"
| "score_actions board (action # rest) player =
     (let b1 = set_cell board action player;
          score = evaluate_board b1 player;
          b2 = set_cell b1 action 0
      in case score_actions b2 rest player of
           (scored, b3) \<Rightarrow> ((action, score) # scored, b3))"

definition order_moves :: "board \<Rightarrow> nat list \<Rightarrow> int \<Rightarrow> nat list \<times> board" where
  "order_moves board valid_actions player =
     (case score_actions board valid_actions player of
        (scored_actions, board') \<Rightarrow>
          (map fst (sort_key (\<lambda>x. - snd x) scored_actions), board'))"

section \<open>Search engine\<close>

text \<open>
  Scores are Python integers or one of the floats \<open>-math.inf\<close>, \<open>math.inf\<close>.
\<close>

datatype score = NegInf | Fin int | PosInf

instantiation score :: linorder
begin

fun less_eq_score :: "score \<Rightarrow> score \<Rightarrow> bool" where
  "less_eq_score NegInf y = True"
| "less_eq_score (Fin a) NegInf = False"
| "less_eq_score (Fin a) (Fin b) = (a \<le> b)"
| "less_eq_score (Fin a) PosInf = True"
| "less_eq_score PosInf PosInf = True"
| "less_eq_score PosInf y = False"

definition less_score :: "score \<Rightarrow> score \<Rightarrow> bool" where
  "less_score x y \<longleftrightarrow> x \<le> y \<and> \<not> y \<le> x"

instance
proof
  fix x y z :: score
  show "(x < y) = (x \<le> y \<and> \<not> y \<le> x)" by (simp add: less_score_def)
  show "x \<le> x" by (cases x) auto
  show "x \<le> y \<Longrightarrow> y \<le> z \<Longrightarrow> x \<le> z" by (cases x; cases y; cases z) auto
  show "x \<le> y \<Longrightarrow> y \<le> x \<Longrightarrow> x = y" by (cases x; cases y) auto
  show "x \<le> y \<or> y \<le> x" by (cases x; cases y) auto
qed

end

instantiation score :: uminus
begin

fun uminus_score :: "score \<Rightarrow> score" where
  "uminus_score NegInf = PosInf"
| "uminus_score (Fin a) = Fin (- a)"
| "uminus_score PosInf = NegInf"

instance ..

end

text \<open>
  The transposition cache is a dictionary from (hash, player, depth) to (score, move).
  A move is a cell index or \<open>None\<close>.
\<close>

type_synonym result = "score \<times> nat option"
type_synonym cache = "(64 word \<times> int \<times> int) \<rightharpoonup> result"

text \<open>
  \<open>negamax\<close> mutates the board and the cache, so both are passed in and returned. The
  recursion is bounded by the empty cells only when the player is not 0, and by the depth
  only when it is not negative, so the model carries the number of further nested calls
  the interpreter allows (\<open>fuel\<close>); \<open>None\<close> is the RecursionError raised when it runs
  out. \<open>search\<close> is the type of \<open>negamax\<close> without the table and the fuel.
\<close>

type_synonym search =
  "board \<Rightarrow> int \<Rightarrow> score \<Rightarrow> score \<Rightarrow> int \<Rightarrow> cache \<Rightarrow> (result \<times> board \<times> cache) option"

text \<open>The loop of \<open>negamax\<close> that collects the empty cells, in index order.\<close>

definition empty_cells :: "board \<Rightarrow> nat list" where
  "empty_cells board = filter (\<lambda>cell_id. cell_at board cell_id = 0) [0..<SIZE * SIZE]"

text \<open>The \<open>for action in ordered_actions\<close> loop of \<open>negamax\<close>; \<open>recur\<close> is the recursive call.\<close>

fun negamax_loop ::
  "search \<Rightarrow> nat list \<Rightarrow> board \<Rightarrow> int \<Rightarrow> score \<Rightarrow> score \<Rightarrow> int \<Rightarrow> cache
     \<Rightarrow> score \<Rightarrow> nat option \<Rightarrow> (result \<times> board \<times> cache) option" where
  "negamax_loop recur [] board depth alpha beta player cache best_score best_move =
     Some ((best_score, best_move), board, cache)"
| "negamax_loop recur (action # rest) board depth alpha beta player cache best_score best_move =
     (case recur (set_cell board action player) (depth - 1) (- beta) (- alpha) (- player) cache of
        None \<Rightarrow> None
      | Some ((child_score, child_move), board1, cache1) \<Rightarrow>
          let board2 = set_cell board1 action 0;
              score = - child_score;
              best_score1 = (if score > best_score then score else best_score);
              best_move1 = (if score > best_score then Some action else best_move);
              alpha1 = max alpha score
          in if alpha1 \<ge> beta
             then Some ((best_score1, best_move1), board2, cache1)
             else negamax_loop recur rest board2 depth alpha1 beta player cache1
                    best_score1 best_move1)"

definition negamax_body :: "zobrist \<Rightarrow> search \<Rightarrow> search" where
  "negamax_body zr recur board depth alpha beta player cache =
     (if check_winner board (- player) then Some ((Fin (- 999999 + depth), None), board, cache)
      else
        let valid_actions = empty_cells board in
        if valid_actions = [] then Some ((Fin 0, None), board, cache)
        else if depth = 0 then Some ((Fin (evaluate_board board player), None), board, cache)
        else
          let board_hash = compute_zobrist_hash zr board;
              cache_key = (board_hash, player, depth)
          in case cache cache_key of
               Some entry \<Rightarrow> Some (entry, board, cache)
             | None \<Rightarrow>
                 (case order_moves board valid_actions player of
                    (ordered_actions, board1) \<Rightarrow>
                      (case negamax_loop recur ordered_actions board1 depth alpha beta player
                              cache NegInf None of
                         None \<Rightarrow> None
                       | Some (best, board2, cache2) \<Rightarrow>
                           Some (best, board2, cache2(cache_key \<mapsto> best)))))"

fun negamax :: "nat \<Rightarrow> zobrist \<Rightarrow> search" where
  "negamax 0 zr = negamax_body zr (\<lambda>board depth alpha beta player cache. None)"
| "negamax (Suc fuel) zr = negamax_body zr (negamax fuel zr)"

definition find_best_move ::
  "nat \<Rightarrow> zobrist \<Rightarrow> board \<Rightarrow> int \<Rightarrow> int \<Rightarrow> cache option
     \<Rightarrow> (nat option \<times> board \<times> cache) option" where
  "find_best_move fuel zr board player max_depth cache =
     (let cache0 = (case cache of None \<Rightarrow> Map.empty | Some c \<Rightarrow> c) in
      case negamax fuel zr board max_depth NegInf PosInf player cache0 of
        None \<Rightarrow> None
      | Some ((score, action), board', cache') \<Rightarrow> Some (action, board', cache'))"

subsection \<open>Full-width search\<close>

text \<open>
  The search of the pruning-equivalence property: \<open>negamax\<close> with the beta cutoff
  (\<open>if alpha >= beta: break\<close>) removed, every ordered move being searched. Nothing else
  differs.
\<close>

fun fullwidth_loop ::
  "search \<Rightarrow> nat list \<Rightarrow> board \<Rightarrow> int \<Rightarrow> score \<Rightarrow> score \<Rightarrow> int \<Rightarrow> cache
     \<Rightarrow> score \<Rightarrow> nat option \<Rightarrow> (result \<times> board \<times> cache) option" where
  "fullwidth_loop recur [] board depth alpha beta player cache best_score best_move =
     Some ((best_score, best_move), board, cache)"
| "fullwidth_loop recur (action # rest) board depth alpha beta player cache best_score best_move =
     (case recur (set_cell board action player) (depth - 1) (- beta) (- alpha) (- player) cache of
        None \<Rightarrow> None
      | Some ((child_score, child_move), board1, cache1) \<Rightarrow>
          let board2 = set_cell board1 action 0;
              score = - child_score;
              best_score1 = (if score > best_score then score else best_score);
              best_move1 = (if score > best_score then Some action else best_move);
              alpha1 = max alpha score
          in fullwidth_loop recur rest board2 depth alpha1 beta player cache1
               best_score1 best_move1)"

definition fullwidth_body :: "zobrist \<Rightarrow> search \<Rightarrow> search" where
  "fullwidth_body zr recur board depth alpha beta player cache =
     (if check_winner board (- player) then Some ((Fin (- 999999 + depth), None), board, cache)
      else
        let valid_actions = empty_cells board in
        if valid_actions = [] then Some ((Fin 0, None), board, cache)
        else if depth = 0 then Some ((Fin (evaluate_board board player), None), board, cache)
        else
          let board_hash = compute_zobrist_hash zr board;
              cache_key = (board_hash, player, depth)
          in case cache cache_key of
               Some entry \<Rightarrow> Some (entry, board, cache)
             | None \<Rightarrow>
                 (case order_moves board valid_actions player of
                    (ordered_actions, board1) \<Rightarrow>
                      (case fullwidth_loop recur ordered_actions board1 depth alpha beta player
                              cache NegInf None of
                         None \<Rightarrow> None
                       | Some (best, board2, cache2) \<Rightarrow>
                           Some (best, board2, cache2(cache_key \<mapsto> best)))))"

fun negamax_fullwidth :: "nat \<Rightarrow> zobrist \<Rightarrow> search" where
  "negamax_fullwidth 0 zr = fullwidth_body zr (\<lambda>board depth alpha beta player cache. None)"
| "negamax_fullwidth (Suc fuel) zr = fullwidth_body zr (negamax_fullwidth fuel zr)"

section \<open>Notions used to state the properties\<close>

text \<open>
  Placing a sequence of stones with \<open>apply_action\<close>, one after the other, stopping at
  the first error as the exception would.
\<close>

fun place_stones :: "board \<Rightarrow> (int \<times> int) list \<Rightarrow> (error + unit) \<times> board" where
  "place_stones board [] = (Inr (), board)"
| "place_stones board ((cell, player) # rest) =
     (case apply_action board cell player of
        (Inl e, board') \<Rightarrow> (Inl e, board')
      | (Inr u, board') \<Rightarrow> place_stones board' rest)"

text \<open>Stones: cell indices in range, played by one of the two players.\<close>

definition stones_ok :: "(int \<times> int) list \<Rightarrow> bool" where
  "stones_ok xs \<longleftrightarrow>
     (\<forall>x \<in> set xs. 0 \<le> fst x \<and> fst x < 16 \<and> (snd x = 1 \<or> snd x = - 1))"

text \<open>
  The hash as the specification words it: the exclusive-or, over every occupied cell, of
  the table entry for that cell and the player occupying it.
\<close>

definition zobrist_entry :: "zobrist \<Rightarrow> nat \<Rightarrow> int \<Rightarrow> 64 word" where
  "zobrist_entry zr cell player = (if player = 1 then fst (zr ! cell) else snd (zr ! cell))"

definition xor_of_occupied :: "zobrist \<Rightarrow> board \<Rightarrow> 64 word" where
  "xor_of_occupied zr board =
     foldr (XOR) (map (\<lambda>c. zobrist_entry zr c (cell_at board c))
                    (filter (\<lambda>c. cell_at board c \<noteq> 0) [0..<SIZE * SIZE])) 0"

text \<open>
  A winning connection: the two edges of each player, the hex adjacency on cell
  coordinates, and a chain of adjacent stones of the player from a start-edge cell to a
  goal-edge cell.
\<close>

definition start_edge :: "int \<Rightarrow> nat set" where
  "start_edge player =
     (if player = 1 then {c. c < 16 \<and> c div 4 = 0} else {c. c < 16 \<and> c mod 4 = 0})"

definition goal_edge :: "int \<Rightarrow> nat set" where
  "goal_edge player =
     (if player = 1 then {c. c < 16 \<and> c div 4 = 3} else {c. c < 16 \<and> c mod 4 = 3})"

definition hex_adjacent :: "nat \<Rightarrow> nat \<Rightarrow> bool" where
  "hex_adjacent c n \<longleftrightarrow>
     c < 16 \<and> n < 16 \<and>
     (int (n div 4) - int (c div 4), int (n mod 4) - int (c mod 4))
       \<in> {(- 1, 0), (1, 0), (0, - 1), (0, 1), (- 1, 1), (1, - 1)}"

definition stone_edges :: "board \<Rightarrow> int \<Rightarrow> (nat \<times> nat) set" where
  "stone_edges board player =
     {(c, n). hex_adjacent c n \<and> cell_at board c = player \<and> cell_at board n = player}"

definition has_connection :: "board \<Rightarrow> int \<Rightarrow> bool" where
  "has_connection board player \<longleftrightarrow>
     (\<exists>s g. s \<in> start_edge player \<and> g \<in> goal_edge player \<and> cell_at board s = player
            \<and> (s, g) \<in> (stone_edges board player)\<^sup>*)"

section \<open>Example positions\<close>

definition ex_board :: board where
  "ex_board = [[-1, -1, -1, 0], [0, 1, 0, 0], [0, 1, 0, 0], [0, 0, 1, 0]]"

definition ex_zobrist :: zobrist where
  "ex_zobrist = map (\<lambda>c. (push_bit (2 * c) 1, push_bit (2 * c + 1) 1)) [0..<16]"

text \<open>Player -1 has connected left to right along row 0; player 1 is to move.\<close>

definition ex_won :: board where
  "ex_won = [[-1, -1, -1, -1], [1, 1, 0, 0], [0, 0, 1, 1], [0, 0, 0, 0]]"

text \<open>A late position with three empty cells (3, 10 and 15); player 1 is to move.\<close>

definition ex_late :: board where
  "ex_late = [[-1, -1, -1, 0], [1, 1, 1, -1], [1, -1, 0, -1], [1, 1, -1, 0]]"

definition ex_row_full :: board where
  "ex_row_full = [[-1, -1, -1, -1], [0, 0, 0, 0], [0, 0, 0, 0], [0, 0, 0, 0]]"

definition ex_chain3 :: board where
  "ex_chain3 = [[-1, -1, -1, 0], [0, 0, 0, 0], [0, 0, 0, 0], [0, 0, 0, 0]]"

definition ex_column :: board where
  "ex_column = [[0, 1, -1, -1], [0, 1, 0, 0], [0, 1, 0, 0], [0, 1, 0, 0]]"

section \<open>Basic facts about boards\<close>

lemma wf_board_row: "wf_board b \<Longrightarrow> r < SIZE \<Longrightarrow> length (b ! r) = SIZE"
  unfolding wf_board_def by (metis nth_mem)

lemma wf_board_set_cell:
  assumes "wf_board b"
  shows "wf_board (set_cell b c v)"
proof -
  have "length row = SIZE" if "row \<in> set (set_cell b c v)" for row
  proof -
    from that have "row = (b ! (c div SIZE))[c mod SIZE := v] \<or> row \<in> set b"
      unfolding set_cell_def using set_update_subset_insert by fastforce
    moreover have "c div SIZE < length b \<Longrightarrow> length (b ! (c div SIZE)) = SIZE"
      using assms unfolding wf_board_def by (metis nth_mem)
    moreover have "\<not> c div SIZE < length b \<Longrightarrow> set_cell b c v = b"
      by (simp add: set_cell_def list_update_beyond)
    ultimately show ?thesis
      using assms that unfolding wf_board_def by (cases "c div SIZE < length b") auto
  qed
  moreover have "length (set_cell b c v) = SIZE"
    using assms by (simp add: set_cell_def wf_board_def)
  ultimately show ?thesis by (simp add: wf_board_def)
qed

lemma cell_at_set_cell:
  assumes "wf_board b" "c < 16" "c' < 16"
  shows "cell_at (set_cell b c v) c' = (if c' = c then v else cell_at b c')"
proof -
  have r: "c div 4 < 4" "c' div 4 < 4" "c mod 4 < 4" "c' mod 4 < 4"
    using assms by auto
  have len: "length b = 4" "length (b ! (c div 4)) = 4"
    using assms r by (simp_all add: wf_board_def wf_board_row)
  show ?thesis
  proof (cases "c' div 4 = c div 4")
    case True
    then have "c' = c \<longleftrightarrow> c' mod 4 = c mod 4"
      by (metis div_mult_mod_eq)
    then show ?thesis
      using True r len by (simp add: cell_at_def set_cell_def)
  next
    case False
    then have "c' \<noteq> c" by auto
    then show ?thesis
      using False r len by (simp add: cell_at_def set_cell_def)
  qed
qed

lemma py_norm_in_range: "0 \<le> i \<Longrightarrow> i < int (length xs) \<Longrightarrow> py_norm xs i = Some (nat i)"
  by (simp add: py_norm_def)

lemma apply_action_in_range:
  assumes "wf_board b" "0 \<le> a" "a < 16"
  shows "apply_action b a p =
           (if cell_at b (nat a) \<noteq> 0 then (Inl ValueError, b)
            else (Inr (), set_cell b (nat a) p))"
proof -
  define i where "i = nat (a div 4)"
  define j where "j = nat (a mod 4)"
  have ij: "i < 4" "j < 4" "a div 4 = int i" "a mod 4 = int j"
    using assms by (auto simp: i_def j_def)
  have n: "nat a div 4 = i" "nat a mod 4 = j"
    using assms by (simp_all add: i_def j_def nat_div_distrib nat_mod_distrib)
  have len: "length b = 4" "length (b ! i) = 4"
    using assms ij by (simp_all add: wf_board_def wf_board_row)
  have g: "py_norm b (int i) = Some i" "py_norm (b ! i) (int j) = Some j"
    using ij len by (simp_all add: py_norm_in_range)
  show ?thesis
    unfolding apply_action_def is_valid_action_def py_get_def cell_at_def set_cell_def
      Let_def n
    by (simp add: ij(3,4) g)
qed

section \<open>Facts about the adjacency\<close>

lemma cell_of_coords:
  fixes nr nc :: int
  assumes "0 \<le> nr" "0 \<le> nc" "nc < 4"
  shows "nat (nr * 4 + nc) div 4 = nat nr" "nat (nr * 4 + nc) mod 4 = nat nc"
proof -
  have "nat (nr * 4 + nc) = nat nr * 4 + nat nc"
    using assms by (simp add: nat_add_distrib nat_mult_distrib)
  moreover have "nat nc < 4" using assms by simp
  ultimately show "nat (nr * 4 + nc) div 4 = nat nr" "nat (nr * 4 + nc) mod 4 = nat nc"
    by simp_all
qed

lemma get_neighbors_coords:
  "n \<in> set (get_neighbors c) \<longleftrightarrow>
     n < 16 \<and> (int (n div 4) - int (c div 4), int (n mod 4) - int (c mod 4)) \<in> set directions"
proof
  assume "n \<in> set (get_neighbors c)"
  then obtain dr dc :: int where d: "(dr, dc) \<in> set directions"
    and b: "0 \<le> int (c div 4) + dr" "int (c div 4) + dr < 4"
           "0 \<le> int (c mod 4) + dc" "int (c mod 4) + dc < 4"
    and n: "n = nat ((int (c div 4) + dr) * 4 + (int (c mod 4) + dc))"
    by (auto simp: get_neighbors_def Let_def)
  have "n div 4 = nat (int (c div 4) + dr)" "n mod 4 = nat (int (c mod 4) + dc)"
    unfolding n using cell_of_coords [OF b(1) b(3) b(4)] by simp_all
  then have "int (n div 4) - int (c div 4) = dr" "int (n mod 4) - int (c mod 4) = dc"
    using b by simp_all
  moreover have "n < 16"
    using \<open>n \<in> set (get_neighbors c)\<close> by (rule get_neighbors_bound)
  ultimately show "n < 16 \<and>
      (int (n div 4) - int (c div 4), int (n mod 4) - int (c mod 4)) \<in> set directions"
    using d by simp
next
  assume a: "n < 16 \<and>
      (int (n div 4) - int (c div 4), int (n mod 4) - int (c mod 4)) \<in> set directions"
  define dr where "dr = int (n div 4) - int (c div 4)"
  define dc where "dc = int (n mod 4) - int (c mod 4)"
  have d: "(dr, dc) \<in> set directions" using a by (simp add: dr_def dc_def)
  have e: "int (c div 4) + dr = int (n div 4)" "int (c mod 4) + dc = int (n mod 4)"
    by (simp_all add: dr_def dc_def)
  have "n div 4 < 4" "n mod 4 < 4" using a by auto
  then have b: "0 \<le> int (c div 4) + dr \<and> int (c div 4) + dr < int SIZE \<and>
           0 \<le> int (c mod 4) + dc \<and> int (c mod 4) + dc < int SIZE"
    unfolding e by simp
  have "n = nat ((int (c div 4) + dr) * int SIZE + (int (c mod 4) + dc))"
    unfolding e by (simp add: nat_add_distrib nat_mult_distrib)
  with d b show "n \<in> set (get_neighbors c)"
    unfolding get_neighbors_def Let_def by (auto intro!: image_eqI [where x = "(dr, dc)"])
qed

lemma directions_bounds: "(dr, dc) \<in> set directions \<Longrightarrow> dr \<le> 1 \<and> dc \<le> 1"
  by (auto simp: directions_def)

lemma directions_sym: "(dr, dc) \<in> set directions \<Longrightarrow> (- dr, - dc) \<in> set directions"
  by (auto simp: directions_def)

lemma get_neighbors_row_step:
  assumes "n \<in> set (get_neighbors c)"
  shows "int (n div 4) \<le> int (c div 4) + 1"
  using assms directions_bounds [of "int (n div 4) - int (c div 4)" "int (n mod 4) - int (c mod 4)"]
  unfolding get_neighbors_coords by linarith

lemma get_neighbors_col_step:
  assumes "n \<in> set (get_neighbors c)"
  shows "int (n mod 4) \<le> int (c mod 4) + 1"
  using assms directions_bounds [of "int (n div 4) - int (c div 4)" "int (n mod 4) - int (c mod 4)"]
  unfolding get_neighbors_coords by linarith

lemma get_neighbors_sym:
  assumes "c < 16" "n \<in> set (get_neighbors c)"
  shows "c \<in> set (get_neighbors n)"
proof -
  from assms(2)
  have "(int (n div 4) - int (c div 4), int (n mod 4) - int (c mod 4)) \<in> set directions"
    unfolding get_neighbors_coords by simp
  from directions_sym [OF this]
  have "(int (c div 4) - int (n div 4), int (c mod 4) - int (n mod 4)) \<in> set directions"
    by simp
  with assms(1) show ?thesis unfolding get_neighbors_coords by simp
qed

section \<open>Facts about the shortest-path search\<close>

lemma bfs_expand_queue:
  "bfs_expand board t d ns visited queue = (visited', queue') \<Longrightarrow>
     set queue' \<subseteq> set queue \<union> (\<lambda>n. (n, d + 1)) ` set ns"
proof (induction ns arbitrary: visited queue)
  case Nil
  then show ?case by simp
next
  case (Cons n ns)
  show ?case
  proof (cases "cell_at board n = t \<and> n \<notin> visited")
    case True
    with Cons.prems
    have "bfs_expand board t d ns (insert n visited) (queue @ [(n, d + 1)]) = (visited', queue')"
      by simp
    from Cons.IH [OF this] show ?thesis by auto
  next
    case False
    with Cons.prems have "bfs_expand board t d ns visited queue = (visited', queue')"
      by auto
    from Cons.IH [OF this] show ?thesis by auto
  qed
qed

lemma bfs_loop_lower_bound:
  assumes "bfs_loop board t is_goal queue visited = Some d"
    and "\<forall>(c, k) \<in> set queue. f c \<le> k"
    and "\<forall>c. is_goal c \<longrightarrow> f c = l"
    and step: "\<And>c n. n \<in> set (get_neighbors c) \<Longrightarrow> f n \<le> f c + 1"
  shows "l \<le> d"
  using assms(1,2,3)
proof (induction board t is_goal queue visited rule: bfs_loop.induct)
  case (1 board t is_goal visited)
  then show ?case by simp
next
  case (2 board t is_goal current dist queue visited)
  show ?case
  proof (cases "is_goal current")
    case True
    with "2.prems" have "dist = d" "f current \<le> dist" "f current = l" by auto
    then show ?thesis by simp
  next
    case False
    obtain visited' queue' where
      e: "bfs_expand board t dist (get_neighbors current) visited queue = (visited', queue')"
      by (cases "bfs_expand board t dist (get_neighbors current) visited queue")
    from False e "2.prems"(1)
    have r: "bfs_loop board t is_goal queue' visited' = Some d" by simp
    have cur: "f current \<le> dist" using "2.prems"(2) by simp
    have "f c \<le> k" if "(c, k) \<in> set queue'" for c k
    proof -
      from bfs_expand_queue [OF e] that
      consider "(c, k) \<in> set queue" | "c \<in> set (get_neighbors current)" "k = dist + 1"
        by auto
      then show ?thesis
      proof cases
        case 1
        with "2.prems"(2) show ?thesis by auto
      next
        case 2
        from step [OF 2(1)] cur 2(2) show ?thesis by simp
      qed
    qed
    then have "\<forall>(c, k) \<in> set queue'. f c \<le> k" by auto
    from "2.IH" [OF False e [symmetric] r this "2.prems"(3)] show ?thesis .
  qed
qed

lemma shortest_path_length_lower_bound:
  assumes "shortest_path_length board p = Some d"
  shows "3 \<le> d"
proof (cases "p = 1")
  case True
  define starts where "starts = filter (\<lambda>c. board ! 0 ! c = 1) [0..<SIZE]"
  have "shortest_path_length board p
      = bfs_loop board 1 (\<lambda>cell. cell div 4 = 3) (map (\<lambda>s. (s, 0)) starts) (set starts)"
    using True by (simp add: shortest_path_length_def Let_def starts_def)
  with assms
  have r: "bfs_loop board 1 (\<lambda>cell. cell div 4 = 3) (map (\<lambda>s. (s, 0)) starts) (set starts)
      = Some d" by simp
  have q: "\<forall>(c, k) \<in> set (map (\<lambda>s. (s, 0::int)) starts). int (c div 4) \<le> k"
    by (auto simp: starts_def)
  show ?thesis
    by (rule bfs_loop_lower_bound [OF r q]) (auto dest: get_neighbors_row_step)
next
  case False
  define starts where
    "starts = map (\<lambda>r. r * SIZE) (filter (\<lambda>r. board ! r ! 0 = - 1) [0..<SIZE])"
  have "shortest_path_length board p
      = bfs_loop board (- 1) (\<lambda>cell. cell mod 4 = 3) (map (\<lambda>s. (s, 0)) starts) (set starts)"
    using False by (simp add: shortest_path_length_def Let_def starts_def)
  with assms
  have r: "bfs_loop board (- 1) (\<lambda>cell. cell mod 4 = 3) (map (\<lambda>s. (s, 0)) starts) (set starts)
      = Some d" by simp
  have q: "\<forall>(c, k) \<in> set (map (\<lambda>s. (s, 0::int)) starts). int (c mod 4) \<le> k"
    by (auto simp: starts_def)
  show ?thesis
    by (rule bfs_loop_lower_bound [OF r q]) (auto dest: get_neighbors_col_step)
qed

section \<open>Facts about the search\<close>

subsection \<open>Writing a stone and taking it back\<close>

lemma set_cell_undo:
  assumes "cell_at b a = 0"
  shows "set_cell (set_cell b a p) a 0 = b"
proof (cases "a div 4 < length b")
  case True
  have "(b ! (a div 4))[a mod 4 := 0] = b ! (a div 4)"
    using assms list_update_id [of "b ! (a div 4)" "a mod 4"] by (simp add: cell_at_def)
  then show ?thesis using True by (simp add: set_cell_def)
next
  case False
  then show ?thesis by (simp add: set_cell_def list_update_beyond)
qed

lemma score_actions_board:
  "\<forall>a \<in> set actions. cell_at b a = 0 \<Longrightarrow> snd (score_actions b actions p) = b"
proof (induction actions)
  case Nil
  show ?case by simp
next
  case (Cons a actions)
  then have u: "set_cell (set_cell b a p) a 0 = b" by (simp add: set_cell_undo)
  obtain sc b3 where e: "score_actions b actions p = (sc, b3)"
    by (cases "score_actions b actions p")
  with Cons have "b3 = b" by simp
  with u e show ?case by (simp add: Let_def)
qed

lemma score_actions_moves: "map fst (fst (score_actions b actions p)) = actions"
proof (induction actions arbitrary: b)
  case Nil
  show ?case by simp
next
  case (Cons a actions)
  obtain sc b3 where e: "score_actions (set_cell (set_cell b a p) a 0) actions p = (sc, b3)"
    by (cases "score_actions (set_cell (set_cell b a p) a 0) actions p")
  with Cons [of "set_cell (set_cell b a p) a 0"] have "map fst sc = actions" by simp
  with e show ?case by (simp add: Let_def)
qed

lemma order_moves_fst:
  "fst (order_moves b actions p)
     = map fst (sort_key (\<lambda>x. - snd x) (fst (score_actions b actions p)))"
  by (cases "score_actions b actions p") (simp add: order_moves_def)

lemma order_moves_snd: "snd (order_moves b actions p) = snd (score_actions b actions p)"
  by (cases "score_actions b actions p") (simp add: order_moves_def)

lemma order_moves_board:
  "\<forall>a \<in> set actions. cell_at b a = 0 \<Longrightarrow> snd (order_moves b actions p) = b"
  by (simp add: order_moves_snd score_actions_board)

lemma order_moves_mset: "mset (fst (order_moves b actions p)) = mset actions"
proof -
  have "mset (map fst (sort_key (\<lambda>x. - snd x) (fst (score_actions b actions p))))
      = mset (map fst (fst (score_actions b actions p)))"
    by simp
  then show ?thesis
    unfolding order_moves_fst score_actions_moves .
qed

lemma order_moves_set: "set (fst (order_moves b actions p)) = set actions"
  using order_moves_mset [of b actions p] by (metis set_mset_mset)

lemma order_moves_Nil: "fst (order_moves b actions p) = [] \<longleftrightarrow> actions = []"
  using order_moves_mset [of b actions p] by (metis mset_zero_iff)

subsection \<open>The board is restored\<close>

definition restores :: "search \<Rightarrow> bool" where
  "restores recur \<longleftrightarrow>
     (\<forall>b d al be p c r b' c'. recur b d al be p c = Some (r, b', c') \<longrightarrow> b' = b)"

lemma negamax_loop_restores:
  assumes "restores recur"
    and "negamax_loop recur actions b d al be p c bs bm = Some (r, b', c')"
    and "\<forall>a \<in> set actions. cell_at b a = 0"
  shows "b' = b"
  using assms(2,3)
proof (induction actions arbitrary: al c bs bm)
  case Nil
  then show ?case by simp
next
  case (Cons a actions)
  from Cons.prems(1) obtain cs cm b1 c1 where
    rc: "recur (set_cell b a p) (d - 1) (- be) (- al) (- p) c = Some ((cs, cm), b1, c1)"
    by (auto split: option.splits)
  with assms(1) have "b1 = set_cell b a p" unfolding restores_def by blast
  then have u: "set_cell b1 a 0 = b" using Cons.prems(2) by (simp add: set_cell_undo)
  show ?case
  proof (cases "be \<le> max al (- cs)")
    case True
    with Cons.prems(1) rc u show ?thesis by (simp add: Let_def)
  next
    case False
    with Cons.prems(1) rc u
    have "negamax_loop recur actions b d (max al (- cs)) be p c1
            (if - cs > bs then - cs else bs) (if - cs > bs then Some a else bm)
          = Some (r, b', c')"
      by (simp add: Let_def)
    from Cons.IH [OF this] Cons.prems(2) show ?thesis by simp
  qed
qed

lemma fullwidth_loop_restores:
  assumes "restores recur"
    and "fullwidth_loop recur actions b d al be p c bs bm = Some (r, b', c')"
    and "\<forall>a \<in> set actions. cell_at b a = 0"
  shows "b' = b"
  using assms(2,3)
proof (induction actions arbitrary: al c bs bm)
  case Nil
  then show ?case by simp
next
  case (Cons a actions)
  from Cons.prems(1) obtain cs cm b1 c1 where
    rc: "recur (set_cell b a p) (d - 1) (- be) (- al) (- p) c = Some ((cs, cm), b1, c1)"
    by (auto split: option.splits)
  with assms(1) have "b1 = set_cell b a p" unfolding restores_def by blast
  then have u: "set_cell b1 a 0 = b" using Cons.prems(2) by (simp add: set_cell_undo)
  from Cons.prems(1) rc u
  have "fullwidth_loop recur actions b d (max al (- cs)) be p c1
          (if - cs > bs then - cs else bs) (if - cs > bs then Some a else bm)
        = Some (r, b', c')"
    by (simp add: Let_def)
  from Cons.IH [OF this] Cons.prems(2) show ?case by simp
qed

lemma set_empty_cells: "set (empty_cells b) = {c. c < 16 \<and> cell_at b c = 0}"
  unfolding empty_cells_def by (auto simp del: upt_rec_numeral)

abbreviation ordered_of :: "board \<Rightarrow> int \<Rightarrow> nat list" where
  "ordered_of b p \<equiv> fst (order_moves b (empty_cells b) p)"

definition store :: "64 word \<times> int \<times> int \<Rightarrow> result \<times> board \<times> cache \<Rightarrow> result \<times> board \<times> cache"
  where "store k x = (case x of (best, b2, c2) \<Rightarrow> (best, b2, c2(k \<mapsto> best)))"

lemma order_moves_valid: "snd (order_moves b (empty_cells b) p) = b"
  by (rule order_moves_board) (simp add: set_empty_cells)

lemma ordered_of_empty: "\<forall>a \<in> set (ordered_of b p). cell_at b a = 0"
  by (simp add: order_moves_set set_empty_cells)

lemma negamax_body_cases:
  "check_winner b (- p) \<Longrightarrow>
     negamax_body zr recur b d al be p c = Some ((Fin (- 999999 + d), None), b, c)"
  "\<not> check_winner b (- p) \<Longrightarrow> empty_cells b = [] \<Longrightarrow>
     negamax_body zr recur b d al be p c = Some ((Fin 0, None), b, c)"
  "\<not> check_winner b (- p) \<Longrightarrow> empty_cells b \<noteq> [] \<Longrightarrow> d = 0 \<Longrightarrow>
     negamax_body zr recur b d al be p c = Some ((Fin (evaluate_board b p), None), b, c)"
  "\<not> check_winner b (- p) \<Longrightarrow> empty_cells b \<noteq> [] \<Longrightarrow> d \<noteq> 0 \<Longrightarrow>
     c (compute_zobrist_hash zr b, p, d) = Some e \<Longrightarrow>
     negamax_body zr recur b d al be p c = Some (e, b, c)"
  "\<not> check_winner b (- p) \<Longrightarrow> empty_cells b \<noteq> [] \<Longrightarrow> d \<noteq> 0 \<Longrightarrow>
     c (compute_zobrist_hash zr b, p, d) = None \<Longrightarrow>
     negamax_body zr recur b d al be p c
       = map_option (store (compute_zobrist_hash zr b, p, d))
           (negamax_loop recur (ordered_of b p) b d al be p c NegInf None)"
  by (simp_all add: negamax_body_def Let_def case_prod_beta order_moves_valid store_def
      map_option_case split: option.splits)

lemma fullwidth_body_cases:
  "check_winner b (- p) \<Longrightarrow>
     fullwidth_body zr recur b d al be p c = Some ((Fin (- 999999 + d), None), b, c)"
  "\<not> check_winner b (- p) \<Longrightarrow> empty_cells b = [] \<Longrightarrow>
     fullwidth_body zr recur b d al be p c = Some ((Fin 0, None), b, c)"
  "\<not> check_winner b (- p) \<Longrightarrow> empty_cells b \<noteq> [] \<Longrightarrow> d = 0 \<Longrightarrow>
     fullwidth_body zr recur b d al be p c = Some ((Fin (evaluate_board b p), None), b, c)"
  "\<not> check_winner b (- p) \<Longrightarrow> empty_cells b \<noteq> [] \<Longrightarrow> d \<noteq> 0 \<Longrightarrow>
     c (compute_zobrist_hash zr b, p, d) = Some e \<Longrightarrow>
     fullwidth_body zr recur b d al be p c = Some (e, b, c)"
  "\<not> check_winner b (- p) \<Longrightarrow> empty_cells b \<noteq> [] \<Longrightarrow> d \<noteq> 0 \<Longrightarrow>
     c (compute_zobrist_hash zr b, p, d) = None \<Longrightarrow>
     fullwidth_body zr recur b d al be p c
       = map_option (store (compute_zobrist_hash zr b, p, d))
           (fullwidth_loop recur (ordered_of b p) b d al be p c NegInf None)"
  by (simp_all add: fullwidth_body_def Let_def case_prod_beta order_moves_valid store_def
      map_option_case split: option.splits)

lemma negamax_body_restores:
  assumes "restores recur"
  shows "restores (negamax_body zr recur)"
  unfolding restores_def
proof (intro allI impI)
  fix b d al be p c r b' c'
  assume e: "negamax_body zr recur b d al be p c = Some (r, b', c')"
  consider "check_winner b (- p)"
    | "\<not> check_winner b (- p)" "empty_cells b = []"
    | "\<not> check_winner b (- p)" "empty_cells b \<noteq> []" "d = 0"
    | en where "\<not> check_winner b (- p)" "empty_cells b \<noteq> []" "d \<noteq> 0"
        "c (compute_zobrist_hash zr b, p, d) = Some en"
    | "\<not> check_winner b (- p)" "empty_cells b \<noteq> []" "d \<noteq> 0"
        "c (compute_zobrist_hash zr b, p, d) = None"
    by (cases "c (compute_zobrist_hash zr b, p, d)") auto
  then show "b' = b"
  proof cases
    case 5
    from e 5 have "map_option (store (compute_zobrist_hash zr b, p, d))
        (negamax_loop recur (ordered_of b p) b d al be p c NegInf None) = Some (r, b', c')"
      by (simp add: negamax_body_cases(5))
    then obtain r0 b0 c0 where
      l: "negamax_loop recur (ordered_of b p) b d al be p c NegInf None = Some (r0, b0, c0)"
      and s: "b' = b0"
      by (auto simp: store_def)
    from negamax_loop_restores [OF assms l ordered_of_empty] s show ?thesis by simp
  qed (use e in \<open>simp_all add: negamax_body_cases\<close>)
qed

lemma fullwidth_body_restores:
  assumes "restores recur"
  shows "restores (fullwidth_body zr recur)"
  unfolding restores_def
proof (intro allI impI)
  fix b d al be p c r b' c'
  assume e: "fullwidth_body zr recur b d al be p c = Some (r, b', c')"
  consider "check_winner b (- p)"
    | "\<not> check_winner b (- p)" "empty_cells b = []"
    | "\<not> check_winner b (- p)" "empty_cells b \<noteq> []" "d = 0"
    | en where "\<not> check_winner b (- p)" "empty_cells b \<noteq> []" "d \<noteq> 0"
        "c (compute_zobrist_hash zr b, p, d) = Some en"
    | "\<not> check_winner b (- p)" "empty_cells b \<noteq> []" "d \<noteq> 0"
        "c (compute_zobrist_hash zr b, p, d) = None"
    by (cases "c (compute_zobrist_hash zr b, p, d)") auto
  then show "b' = b"
  proof cases
    case 5
    from e 5 have "map_option (store (compute_zobrist_hash zr b, p, d))
        (fullwidth_loop recur (ordered_of b p) b d al be p c NegInf None) = Some (r, b', c')"
      by (simp add: fullwidth_body_cases(5))
    then obtain r0 b0 c0 where
      l: "fullwidth_loop recur (ordered_of b p) b d al be p c NegInf None = Some (r0, b0, c0)"
      and s: "b' = b0"
      by (auto simp: store_def)
    from fullwidth_loop_restores [OF assms l ordered_of_empty] s show ?thesis by simp
  qed (use e in \<open>simp_all add: fullwidth_body_cases\<close>)
qed

lemma negamax_restores: "restores (negamax fuel zr)"
proof (induction fuel)
  case 0
  have "restores (\<lambda>board depth alpha beta player cache. None)" by (simp add: restores_def)
  then show ?case by (simp add: negamax_body_restores)
next
  case (Suc fuel)
  then show ?case by (simp add: negamax_body_restores)
qed

lemma negamax_fullwidth_restores: "restores (negamax_fullwidth fuel zr)"
proof (induction fuel)
  case 0
  have "restores (\<lambda>board depth alpha beta player cache. None)" by (simp add: restores_def)
  then show ?case by (simp add: fullwidth_body_restores)
next
  case (Suc fuel)
  then show ?case by (simp add: fullwidth_body_restores)
qed

subsection \<open>The search returns\<close>

definition returns_at :: "search \<Rightarrow> int \<Rightarrow> bool" where
  "returns_at recur d \<longleftrightarrow> (\<forall>b al be p c. recur b d al be p c \<noteq> None)"

lemma negamax_loop_returns:
  assumes "returns_at recur (d - 1)"
  shows "negamax_loop recur actions b d al be p c bs bm \<noteq> None"
proof (induction actions arbitrary: b al c bs bm)
  case Nil
  show ?case by simp
next
  case (Cons a actions)
  from assms obtain cs cm b1 c1 where
    "recur (set_cell b a p) (d - 1) (- be) (- al) (- p) c = Some ((cs, cm), b1, c1)"
    unfolding returns_at_def by (metis not_None_eq prod.collapse)
  with Cons show ?case by (simp add: Let_def)
qed

lemma fullwidth_loop_returns:
  assumes "returns_at recur (d - 1)"
  shows "fullwidth_loop recur actions b d al be p c bs bm \<noteq> None"
proof (induction actions arbitrary: b al c bs bm)
  case Nil
  show ?case by simp
next
  case (Cons a actions)
  from assms obtain cs cm b1 c1 where
    "recur (set_cell b a p) (d - 1) (- be) (- al) (- p) c = Some ((cs, cm), b1, c1)"
    unfolding returns_at_def by (metis not_None_eq prod.collapse)
  with Cons show ?case by (simp add: Let_def)
qed

lemma body_case_split:
  obtains "check_winner b (- p)"
  | "\<not> check_winner b (- p)" "empty_cells b = []"
  | "\<not> check_winner b (- p)" "empty_cells b \<noteq> []" "d = 0"
  | en where "\<not> check_winner b (- p)" "empty_cells b \<noteq> []" "d \<noteq> 0"
      "c (compute_zobrist_hash zr b, p, d) = Some en"
  | "\<not> check_winner b (- p)" "empty_cells b \<noteq> []" "d \<noteq> 0"
      "c (compute_zobrist_hash zr b, p, (d::int)) = None"
  by (cases "c (compute_zobrist_hash zr b, p, d)") auto

lemma negamax_body_returns:
  assumes "d \<noteq> 0 \<Longrightarrow> returns_at recur (d - 1)"
  shows "negamax_body zr recur b d al be p c \<noteq> None"
proof (cases rule: body_case_split [where b = b and p = p and d = d and c = c and zr = zr])
  case 5
  with assms negamax_loop_returns [of recur d "ordered_of b p" b al be p c NegInf None]
  show ?thesis by (simp add: negamax_body_cases(5))
qed (simp_all add: negamax_body_cases)

lemma fullwidth_body_returns:
  assumes "d \<noteq> 0 \<Longrightarrow> returns_at recur (d - 1)"
  shows "fullwidth_body zr recur b d al be p c \<noteq> None"
proof (cases rule: body_case_split [where b = b and p = p and d = d and c = c and zr = zr])
  case 5
  with assms fullwidth_loop_returns [of recur d "ordered_of b p" b al be p c NegInf None]
  show ?thesis by (simp add: fullwidth_body_cases(5))
qed (simp_all add: fullwidth_body_cases)

lemma negamax_returns: "0 \<le> d \<Longrightarrow> d \<le> int fuel \<Longrightarrow> returns_at (negamax fuel zr) d"
proof (induction fuel arbitrary: d)
  case 0
  then have "d = 0" by simp
  then show ?case by (simp add: returns_at_def negamax_body_returns)
next
  case (Suc fuel)
  have "returns_at (negamax fuel zr) (d - 1)" if "d \<noteq> 0"
    using that Suc.prems by (intro Suc.IH) simp_all
  then show ?case by (simp add: returns_at_def negamax_body_returns)
qed

lemma negamax_fullwidth_returns:
  "0 \<le> d \<Longrightarrow> d \<le> int fuel \<Longrightarrow> returns_at (negamax_fullwidth fuel zr) d"
proof (induction fuel arbitrary: d)
  case 0
  then have "d = 0" by simp
  then show ?case by (simp add: returns_at_def fullwidth_body_returns)
next
  case (Suc fuel)
  have "returns_at (negamax_fullwidth fuel zr) (d - 1)" if "d \<noteq> 0"
    using that Suc.prems by (intro Suc.IH) simp_all
  then show ?case by (simp add: returns_at_def fullwidth_body_returns)
qed

text \<open>
  With a player other than 0 every move fills a cell, so the recursion is also bounded
  by the number of empty cells, whatever the depth.
\<close>

lemma empty_cells_set_cell:
  assumes "wf_board b" "a \<in> set (empty_cells b)" "p \<noteq> 0"
  shows "length (empty_cells (set_cell b a p)) < length (empty_cells b)"
proof -
  have a: "a < 16" using assms(2) by (simp add: set_empty_cells)
  have "empty_cells (set_cell b a p) = filter (\<lambda>c. c \<noteq> a) (empty_cells b)"
    unfolding empty_cells_def filter_filter
    using assms(1,3) a by (intro filter_cong) (auto simp: cell_at_set_cell)
  then show ?thesis using assms(2) by (simp add: length_filter_less)
qed

lemma negamax_loop_returns_filled:
  assumes "restores recur"
    and "\<forall>a \<in> set actions. cell_at b a = 0
           \<and> (\<forall>d al be c. recur (set_cell b a p) d al be (- p) c \<noteq> None)"
  shows "negamax_loop recur actions b d al be p c bs bm \<noteq> None"
  using assms(2)
proof (induction actions arbitrary: al c bs bm)
  case Nil
  show ?case by simp
next
  case (Cons a actions)
  then obtain cs cm b1 c1 where
    rc: "recur (set_cell b a p) (d - 1) (- be) (- al) (- p) c = Some ((cs, cm), b1, c1)"
    by (metis list.set_intros(1) not_None_eq prod.collapse)
  with assms(1) have "b1 = set_cell b a p" unfolding restores_def by blast
  then have u: "set_cell b1 a 0 = b" using Cons.prems by (simp add: set_cell_undo)
  from Cons.IH Cons.prems
  have "negamax_loop recur actions b d al' be p c1 bs' bm' \<noteq> None" for al' bs' bm'
    by simp
  with rc u show ?case by (simp add: Let_def)
qed

lemma negamax_returns_filled:
  "wf_board b \<Longrightarrow> p \<noteq> 0 \<Longrightarrow> length (empty_cells b) \<le> fuel \<Longrightarrow>
     negamax fuel zr b d al be p c \<noteq> None"
proof (induction fuel arbitrary: b d al be p c)
  case 0
  then have "empty_cells b = []" by simp
  then show ?case
    by (cases "check_winner b (- p)") (simp_all add: negamax_body_cases)
next
  case (Suc fuel)
  show ?case
  proof (cases rule: body_case_split [where b = b and p = p and d = d and c = c and zr = zr])
    case 5
    have "cell_at b a = 0 \<and> (\<forall>d al be c. negamax fuel zr (set_cell b a p) d al be (- p) c \<noteq> None)"
      if "a \<in> set (ordered_of b p)" for a
    proof -
      from that have a: "a \<in> set (empty_cells b)" by (simp add: order_moves_set)
      from empty_cells_set_cell [OF Suc.prems(1) a Suc.prems(2)] Suc.prems(3)
      have "length (empty_cells (set_cell b a p)) \<le> fuel" by simp
      with Suc.IH [OF wf_board_set_cell [OF Suc.prems(1)], of "- p" a p] Suc.prems(2) a
      show ?thesis by (simp add: set_empty_cells)
    qed
    then have "negamax_loop (negamax fuel zr) (ordered_of b p) b d al be p c NegInf None \<noteq> None"
      by (intro negamax_loop_returns_filled negamax_restores) simp
    with 5 show ?thesis by (simp add: negamax_body_cases(5))
  qed (simp_all add: negamax_body_cases)
qed

lemma length_empty_cells: "length (empty_cells b) \<le> 16"
  unfolding empty_cells_def using length_filter_le [of _ "[0..<16]"]
  by (simp del: upt_rec_numeral)

subsection \<open>Scores stay finite\<close>

fun is_fin :: "score \<Rightarrow> bool" where
  "is_fin (Fin i) = True"
| "is_fin s = False"

definition fin_cache :: "cache \<Rightarrow> bool" where
  "fin_cache c \<longleftrightarrow> (\<forall>k s m. c k = Some (s, m) \<longrightarrow> is_fin s)"

definition keeps_finite :: "search \<Rightarrow> bool" where
  "keeps_finite recur \<longleftrightarrow>
     (\<forall>b d al be p c s m b' c'. fin_cache c \<longrightarrow> recur b d al be p c = Some ((s, m), b', c')
        \<longrightarrow> is_fin s \<and> fin_cache c')"

lemma is_fin_uminus: "is_fin s \<Longrightarrow> is_fin (- s)"
  by (cases s) simp_all

lemma is_fin_above: "is_fin s \<Longrightarrow> NegInf < s"
  by (cases s) (simp_all add: less_score_def)

lemma is_fin_below: "is_fin s \<Longrightarrow> s < PosInf"
  by (cases s) (simp_all add: less_score_def)

lemma fin_cache_update: "fin_cache c \<Longrightarrow> is_fin s \<Longrightarrow> fin_cache (c(k \<mapsto> (s, m)))"
  by (simp add: fin_cache_def)

lemma negamax_loop_finite:
  assumes "keeps_finite recur"
    and "negamax_loop recur actions b d al be p c bs bm = Some ((s, m), b', c')"
    and "fin_cache c" "is_fin bs" "bm \<in> Some ` M"
  shows "is_fin s \<and> fin_cache c' \<and> m \<in> Some ` (M \<union> set actions)"
  using assms(2-)
proof (induction actions arbitrary: b al c bs bm M)
  case Nil
  then show ?case by simp
next
  case (Cons a actions)
  from Cons.prems(1) obtain cs cm b1 c1 where
    rc: "recur (set_cell b a p) (d - 1) (- be) (- al) (- p) c = Some ((cs, cm), b1, c1)"
    by (auto split: option.splits)
  with assms(1) Cons.prems(2) have f: "is_fin cs" "fin_cache c1"
    unfolding keeps_finite_def by blast+
  define bs1 where "bs1 = (if - cs > bs then - cs else bs)"
  define bm1 where "bm1 = (if - cs > bs then Some a else bm)"
  have f1: "is_fin bs1" "bm1 \<in> Some ` (insert a M)"
    using f Cons.prems(3,4) by (auto simp: bs1_def bm1_def is_fin_uminus)
  show ?case
  proof (cases "be \<le> max al (- cs)")
    case True
    with Cons.prems(1) rc have "s = bs1" "m = bm1" "c' = c1"
      by (simp_all add: Let_def bs1_def bm1_def)
    with f f1 show ?thesis by auto
  next
    case False
    with Cons.prems(1) rc
    have "negamax_loop recur actions (set_cell b1 a 0) d (max al (- cs)) be p c1 bs1 bm1
          = Some ((s, m), b', c')"
      by (simp add: Let_def bs1_def bm1_def)
    from Cons.IH [OF this f(2) f1] show ?thesis by auto
  qed
qed

lemma negamax_loop_finite_start:
  assumes "keeps_finite recur"
    and "negamax_loop recur actions b d al be p c NegInf None = Some ((s, m), b', c')"
    and "fin_cache c" "actions \<noteq> []"
  shows "is_fin s \<and> fin_cache c' \<and> m \<in> Some ` set actions"
proof -
  from assms(4) obtain a rest where ar: "actions = a # rest" by (cases actions) auto
  from assms(2) obtain cs cm b1 c1 where
    rc: "recur (set_cell b a p) (d - 1) (- be) (- al) (- p) c = Some ((cs, cm), b1, c1)"
    unfolding ar by (auto split: option.splits)
  with assms(1,3) have f: "is_fin cs" "fin_cache c1"
    unfolding keeps_finite_def by blast+
  then have gt: "- cs > NegInf" by (simp add: is_fin_uminus is_fin_above)
  show ?thesis
  proof (cases "be \<le> max al (- cs)")
    case True
    with assms(2) rc gt have "s = - cs" "m = Some a" "c' = c1"
      unfolding ar by (simp_all add: Let_def)
    with f show ?thesis by (simp add: ar is_fin_uminus)
  next
    case False
    with assms(2) rc gt
    have "negamax_loop recur rest (set_cell b1 a 0) d (max al (- cs)) be p c1 (- cs) (Some a)
          = Some ((s, m), b', c')"
      unfolding ar by (simp add: Let_def)
    from negamax_loop_finite [OF assms(1) this f(2), of "{a}"] f(1)
    show ?thesis by (simp add: ar is_fin_uminus)
  qed
qed

lemma negamax_body_finite:
  assumes "keeps_finite recur" "fin_cache c"
    and "negamax_body zr recur b d al be p c = Some ((s, m), b', c')"
  shows "is_fin s \<and> fin_cache c'
       \<and> (\<not> check_winner b (- p) \<and> empty_cells b \<noteq> [] \<and> d \<noteq> 0
            \<and> c (compute_zobrist_hash zr b, p, d) = None \<longrightarrow> m \<in> Some ` set (empty_cells b))"
proof (cases rule: body_case_split [where b = b and p = p and d = d and c = c and zr = zr])
  case (4 en)
  with assms(3) have "en = (s, m)" "c' = c" by (simp_all add: negamax_body_cases(4))
  with 4 assms(2) have "is_fin s" "fin_cache c'" unfolding fin_cache_def by blast+
  with 4 show ?thesis by simp
next
  case 5
  with assms(3) have "map_option (store (compute_zobrist_hash zr b, p, d))
      (negamax_loop recur (ordered_of b p) b d al be p c NegInf None) = Some ((s, m), b', c')"
    by (simp add: negamax_body_cases(5))
  then obtain c0 where
    l: "negamax_loop recur (ordered_of b p) b d al be p c NegInf None = Some ((s, m), b', c0)"
    and c': "c' = c0((compute_zobrist_hash zr b, p, d) \<mapsto> (s, m))"
    by (auto simp: store_def)
  have "ordered_of b p \<noteq> []" using 5(2) by (simp add: order_moves_Nil)
  from negamax_loop_finite_start [OF assms(1) l assms(2) this] c'
  show ?thesis by (simp add: fin_cache_update order_moves_set)
qed (use assms in \<open>auto simp: negamax_body_cases\<close>)

lemma negamax_keeps_finite: "keeps_finite (negamax fuel zr)"
proof (induction fuel)
  case 0
  have "keeps_finite (\<lambda>board depth alpha beta player cache. None)"
    by (simp add: keeps_finite_def)
  from negamax_body_finite [OF this] show ?case
    unfolding keeps_finite_def negamax.simps by blast
next
  case (Suc fuel)
  from negamax_body_finite [OF this] show ?case
    unfolding keeps_finite_def negamax.simps by blast
qed

subsection \<open>The move that is returned\<close>

lemma negamax_unfold:
  obtains recur where "negamax fuel zr = negamax_body zr recur"
    "keeps_finite recur" "restores recur"
proof (cases fuel)
  case 0
  have "keeps_finite (\<lambda>board depth alpha beta player cache. None)"
       "restores (\<lambda>board depth alpha beta player cache. None)"
    by (simp_all add: keeps_finite_def restores_def)
  with 0 that show ?thesis by simp
next
  case (Suc n)
  with that negamax_keeps_finite negamax_restores show ?thesis by simp
qed

lemma negamax_terminal:
  "check_winner b (- p) \<Longrightarrow>
     negamax fuel zr b d al be p c = Some ((Fin (- 999999 + d), None), b, c)"
  by (cases fuel) (simp_all add: negamax_body_cases)

lemma negamax_move:
  assumes "negamax fuel zr b d al be p c = Some ((s, m), b', c')"
    and "d \<noteq> 0" "fin_cache c" "c (compute_zobrist_hash zr b, p, d) = None"
  shows "(m = None \<longleftrightarrow> check_winner b (- p) \<or> empty_cells b = [])
       \<and> (\<forall>a. m = Some a \<longrightarrow> a \<in> set (empty_cells b))"
proof -
  obtain recur where r: "negamax fuel zr = negamax_body zr recur" "keeps_finite recur"
    by (rule negamax_unfold)
  from assms(1) have e: "negamax_body zr recur b d al be p c = Some ((s, m), b', c')"
    by (simp add: r(1))
  show ?thesis
  proof (cases "check_winner b (- p) \<or> empty_cells b = []")
    case True
    with e have "m = None"
      by (cases "check_winner b (- p)") (auto simp: negamax_body_cases)
    with True show ?thesis by simp
  next
    case False
    with negamax_body_finite [OF r(2) assms(3) e] assms(2,4)
    have "m \<in> Some ` set (empty_cells b)" by simp
    with False show ?thesis by auto
  qed
qed

lemma empty_cells_Nil: "empty_cells b = [] \<longleftrightarrow> (\<forall>c < 16. cell_at b c \<noteq> 0)"
proof -
  have "empty_cells b = [] \<longleftrightarrow> set (empty_cells b) = {}" by simp
  also have "\<dots> \<longleftrightarrow> (\<forall>c < 16. cell_at b c \<noteq> 0)"
    unfolding set_empty_cells by auto
  finally show ?thesis .
qed

section \<open>Facts about the position hash\<close>

lemma board_eqI:
  assumes "wf_board b" "wf_board b'" "\<And>k. k < 16 \<Longrightarrow> cell_at b k = cell_at b' k"
  shows "b = b'"
proof (rule nth_equalityI)
  show "length b = length b'" using assms(1,2) by (simp add: wf_board_def)
next
  fix r assume "r < length b"
  then have r: "r < 4" using assms(1) by (simp add: wf_board_def)
  show "b ! r = b' ! r"
  proof (rule nth_equalityI)
    show "length (b ! r) = length (b' ! r)"
      using assms(1,2) r by (simp add: wf_board_row)
  next
    fix c assume "c < length (b ! r)"
    then have c: "c < 4" using assms(1) r by (simp add: wf_board_row)
    then have "r * 4 + c < 16" "(r * 4 + c) div 4 = r" "(r * 4 + c) mod 4 = c"
      using r by simp_all
    with assms(3) [of "r * 4 + c"] show "b ! r ! c = b' ! r ! c"
      by (simp add: cell_at_def)
  qed
qed

lemma compute_zobrist_hash_cong:
  assumes "\<And>k. k < 16 \<Longrightarrow> cell_at b k = cell_at b' k"
  shows "compute_zobrist_hash zr b = compute_zobrist_hash zr b'"
proof -
  have "fold (\<lambda>cell_id h. let val = cell_at b cell_id in
                 if val = 1 then h XOR fst (zr ! cell_id)
                 else if val = - 1 then h XOR snd (zr ! cell_id) else h) cs h0
      = fold (\<lambda>cell_id h. let val = cell_at b' cell_id in
                 if val = 1 then h XOR fst (zr ! cell_id)
                 else if val = - 1 then h XOR snd (zr ! cell_id) else h) cs h0"
    if "\<forall>k \<in> set cs. k < 16" for cs h0
    using that assms by (induction cs arbitrary: h0) simp_all
  from this [of "[0..<16]" 0] show ?thesis
    unfolding compute_zobrist_hash_def by (simp del: upt_rec_numeral)
qed

lemma hash_fold_xor:
  assumes "\<forall>k \<in> set cs. cell_at b k \<in> {- 1, 0, 1}"
  shows "fold (\<lambda>cell_id h. let val = cell_at b cell_id in
                 if val = 1 then h XOR fst (zr ! cell_id)
                 else if val = - 1 then h XOR snd (zr ! cell_id) else h) cs h0
       = h0 XOR foldr (XOR) (map (\<lambda>c. zobrist_entry zr c (cell_at b c))
                               (filter (\<lambda>c. cell_at b c \<noteq> 0) cs)) 0"
  using assms
proof (induction cs arbitrary: h0)
  case Nil
  show ?case by simp
next
  case (Cons k cs)
  from Cons.prems consider "cell_at b k = 1" | "cell_at b k = - 1" | "cell_at b k = 0"
    by auto
  then show ?case
  proof cases
    case 1
    with Cons show ?thesis by (simp add: zobrist_entry_def xor.assoc)
  next
    case 2
    with Cons show ?thesis by (simp add: zobrist_entry_def xor.assoc)
  next
    case 3
    with Cons show ?thesis by simp
  qed
qed

lemma compute_zobrist_hash_xor:
  assumes "\<forall>k < 16. cell_at b k \<in> {- 1, 0, 1}"
  shows "compute_zobrist_hash zr b = xor_of_occupied zr b"
proof -
  have "\<forall>k \<in> set [0..<16]. cell_at b k \<in> {- 1, 0, 1}"
    using assms by (simp del: upt_rec_numeral)
  from hash_fold_xor [OF this, of zr 0] show ?thesis
    unfolding compute_zobrist_hash_def xor_of_occupied_def by (simp del: upt_rec_numeral)
qed

subsection \<open>Stones placed in any order\<close>

lemma place_stones_step:
  assumes "wf_board b" "0 \<le> c" "c < 16"
  shows "place_stones b ((c, p) # xs) =
           (if cell_at b (nat c) \<noteq> 0 then (Inl ValueError, b)
            else place_stones (set_cell b (nat c) p) xs)"
  using assms by (simp add: apply_action_in_range)

lemma stones_ok_Cons:
  "stones_ok ((c, p) # xs) \<longleftrightarrow> 0 \<le> c \<and> c < 16 \<and> (p = 1 \<or> p = - 1) \<and> stones_ok xs"
  by (simp add: stones_ok_def)

lemma stones_ok_mem: "stones_ok xs \<Longrightarrow> x \<in> set xs \<Longrightarrow> 0 \<le> fst x \<and> fst x < 16"
  by (simp add: stones_ok_def)

lemma set_cell_stone_empty:
  assumes "wf_board b" "0 \<le> c" "c < 16" "p \<noteq> 0" "stones_ok xs"
  shows "(\<forall>x \<in> set xs. cell_at (set_cell b (nat c) p) (nat (fst x)) = 0)
       \<longleftrightarrow> c \<notin> fst ` set xs \<and> (\<forall>x \<in> set xs. cell_at b (nat (fst x)) = 0)"
proof -
  have "cell_at (set_cell b (nat c) p) (nat (fst x)) = 0
          \<longleftrightarrow> fst x \<noteq> c \<and> cell_at b (nat (fst x)) = 0"
    if "x \<in> set xs" for x
  proof -
    from stones_ok_mem [OF assms(5) that] have r: "0 \<le> fst x" "fst x < 16" by simp_all
    then have "nat (fst x) = nat c \<longleftrightarrow> fst x = c" using assms(2) by auto
    with r assms(1-4) show ?thesis by (simp add: cell_at_set_cell)
  qed
  then have "(\<forall>x \<in> set xs. cell_at (set_cell b (nat c) p) (nat (fst x)) = 0)
       \<longleftrightarrow> (\<forall>x \<in> set xs. fst x \<noteq> c \<and> cell_at b (nat (fst x)) = 0)"
    by blast
  also have "\<dots> \<longleftrightarrow> c \<notin> fst ` set xs \<and> (\<forall>x \<in> set xs. cell_at b (nat (fst x)) = 0)"
    by blast
  finally show ?thesis .
qed

lemma place_stones_ok:
  assumes "wf_board b" "stones_ok xs"
  shows "fst (place_stones b xs) = Inr () \<longleftrightarrow>
           distinct (map fst xs) \<and> (\<forall>x \<in> set xs. cell_at b (nat (fst x)) = 0)"
  using assms
proof (induction xs arbitrary: b)
  case Nil
  show ?case by simp
next
  case (Cons x xs)
  obtain c p where x: "x = (c, p)" by (cases x)
  from Cons.prems(2) have cp: "0 \<le> c" "c < 16" "p \<noteq> 0" and ok: "stones_ok xs"
    unfolding x stones_ok_Cons by auto
  show ?case
  proof (cases "cell_at b (nat c) = 0")
    case False
    then show ?thesis
      unfolding x place_stones_step [OF Cons.prems(1) cp(1,2)] by simp
  next
    case True
    have wf: "wf_board (set_cell b (nat c) p)" using Cons.prems(1) by (rule wf_board_set_cell)
    from Cons.IH [OF wf ok] set_cell_stone_empty [OF Cons.prems(1) cp ok] True
    show ?thesis
      unfolding x place_stones_step [OF Cons.prems(1) cp(1,2)] by auto
  qed
qed

lemma place_stones_cells:
  assumes "wf_board b" "stones_ok xs" "fst (place_stones b xs) = Inr ()"
  shows "wf_board (snd (place_stones b xs))
       \<and> (\<forall>k < 16. cell_at (snd (place_stones b xs)) k
              = (case map_of xs (int k) of Some p \<Rightarrow> p | None \<Rightarrow> cell_at b k))"
  using assms
proof (induction xs arbitrary: b)
  case Nil
  then show ?case by simp
next
  case (Cons x xs)
  obtain c p where x: "x = (c, p)" by (cases x)
  from Cons.prems(2) have cp: "0 \<le> c" "c < 16" "p \<noteq> 0" and ok: "stones_ok xs"
    unfolding x stones_ok_Cons by auto
  let ?b = "set_cell b (nat c) p"
  have wf: "wf_board ?b" using Cons.prems(1) by (rule wf_board_set_cell)
  from place_stones_ok [OF Cons.prems(1,2)] Cons.prems(3)
  have d: "c \<notin> fst ` set xs" and em: "cell_at b (nat c) = 0" by (simp_all add: x)
  have e: "place_stones b (x # xs) = place_stones ?b xs"
    unfolding x place_stones_step [OF Cons.prems(1) cp(1,2)] using em by simp
  from Cons.prems(3) have s: "fst (place_stones ?b xs) = Inr ()" by (simp add: e)
  from Cons.IH [OF wf ok s]
  have ih: "wf_board (snd (place_stones ?b xs))"
    "\<And>k. k < 16 \<Longrightarrow> cell_at (snd (place_stones ?b xs)) k
            = (case map_of xs (int k) of Some p \<Rightarrow> p | None \<Rightarrow> cell_at ?b k)"
    by simp_all
  have "cell_at (snd (place_stones ?b xs)) k
          = (case map_of (x # xs) (int k) of Some p \<Rightarrow> p | None \<Rightarrow> cell_at b k)"
    if k: "k < 16" for k
  proof (cases "int k = c")
    case True
    then have kc: "k = nat c" by auto
    from d have "map_of xs c = None" by (simp add: map_of_eq_None_iff)
    with ih(2) [OF k] True have "cell_at (snd (place_stones ?b xs)) k = cell_at ?b (nat c)"
      by (simp add: kc)
    also have "\<dots> = p" using Cons.prems(1) cp by (simp add: cell_at_set_cell)
    finally show ?thesis using True by (simp add: x)
  next
    case False
    then have "k \<noteq> nat c" using cp by auto
    then have "cell_at ?b k = cell_at b k"
      using Cons.prems(1) cp k by (simp add: cell_at_set_cell)
    with ih(2) [OF k] False show ?thesis by (simp add: x split: option.splits)
  qed
  with ih(1) show ?case unfolding e by simp
qed

lemma place_stones_permuted:
  assumes "wf_board b" "stones_ok xs" "mset ys = mset xs" "fst (place_stones b xs) = Inr ()"
  shows "fst (place_stones b ys) = Inr ()"
    and "snd (place_stones b ys) = snd (place_stones b xs)"
proof -
  have set: "set ys = set xs" using assms(3) by (rule mset_eq_setD)
  then have ok: "stones_ok ys" using assms(2) by (simp add: stones_ok_def)
  from place_stones_ok [OF assms(1,2)] assms(4)
  have x: "distinct (map fst xs)" "\<forall>x \<in> set xs. cell_at b (nat (fst x)) = 0" by simp_all
  have "mset (map fst ys) = mset (map fst xs)" using assms(3) by simp
  then have "distinct (map fst ys) = distinct (map fst xs)" by (rule mset_eq_imp_distinct_iff)
  with x(1) have dy: "distinct (map fst ys)" by simp
  with x(2) set place_stones_ok [OF assms(1) ok]
  show s: "fst (place_stones b ys) = Inr ()" by simp
  have m: "map_of ys = map_of xs"
    using x(1) dy set by (simp add: map_of_inject_set)
  from place_stones_cells [OF assms(1,2,4)] place_stones_cells [OF assms(1) ok s] m
  show "snd (place_stones b ys) = snd (place_stones b xs)"
    by (intro board_eqI) simp_all
qed

section \<open>Facts about win detection\<close>

definition dfs_edges :: "board \<Rightarrow> int \<Rightarrow> (nat \<times> nat) set" where
  "dfs_edges board val = {(c, n). n \<in> set (get_neighbors c) \<and> cell_at board n = val}"

lemma check_winner_loop_sound:
  "check_winner_loop board val goal stack visited \<Longrightarrow>
     \<exists>s \<in> set stack. \<exists>g \<in> set goal. (s, g) \<in> (dfs_edges board val)\<^sup>*"
proof (induction board val goal stack visited rule: check_winner_loop.induct)
  case (1 board val goal visited)
  then show ?case by simp
next
  case (2 board val goal current stack visited)
  show ?case
  proof (cases "current \<in> set goal")
    case True
    then show ?thesis by auto
  next
    case ng: False
    show ?thesis
    proof (cases "current \<in> visited")
      case True
      with ng "2.prems" have "check_winner_loop board val goal stack visited" by simp
      from "2.IH"(2) [OF ng _ this] True show ?thesis by auto
    next
      case False
      let ?ns = "filter (\<lambda>neighbor. cell_at board neighbor = val) (get_neighbors current)"
      from ng False "2.prems"
      have "check_winner_loop board val goal (rev ?ns @ stack) (insert current visited)"
        by simp
      from "2.IH"(1) [OF ng False this] obtain s g where
        s: "s \<in> set ?ns \<or> s \<in> set stack" and g: "g \<in> set goal"
        and p: "(s, g) \<in> (dfs_edges board val)\<^sup>*"
        by auto
      from s show ?thesis
      proof
        assume "s \<in> set ?ns"
        then have "(current, s) \<in> dfs_edges board val" by (simp add: dfs_edges_def)
        with p have "(current, g) \<in> (dfs_edges board val)\<^sup>*" by simp
        with g show ?thesis by auto
      next
        assume "s \<in> set stack"
        with g p show ?thesis by auto
      qed
    qed
  qed
qed

lemma visited_path_leaves:
  assumes "(v, g) \<in> E\<^sup>*" "v \<in> visited" "g \<notin> visited"
    and "\<forall>v \<in> visited. \<forall>n. (v, n) \<in> E \<longrightarrow> n \<in> visited \<or> n \<in> S"
  shows "\<exists>s \<in> S. (s, g) \<in> E\<^sup>*"
  using assms(1,2)
proof (induction rule: converse_rtrancl_induct)
  case base
  with assms(3) show ?case by simp
next
  case (step v w)
  from assms(4) step.hyps(1) step.prems have "w \<in> visited \<or> w \<in> S" by blast
  then show ?case
  proof
    assume "w \<in> visited"
    then show ?thesis by (rule step.IH)
  next
    assume "w \<in> S"
    with step.hyps(2) show ?thesis by blast
  qed
qed

lemma check_winner_loop_complete:
  assumes "s \<in> set stack" "g \<in> set goal" "(s, g) \<in> (dfs_edges board val)\<^sup>*"
    and "\<forall>v \<in> visited. v \<notin> set goal"
    and "\<forall>v \<in> visited. \<forall>n. (v, n) \<in> dfs_edges board val \<longrightarrow> n \<in> visited \<or> n \<in> set stack"
  shows "check_winner_loop board val goal stack visited"
  using assms
proof (induction board val goal stack visited arbitrary: s rule: check_winner_loop.induct)
  case (1 board val goal visited)
  then show ?case by simp
next
  case (2 board val goal current stack visited)
  let ?E = "dfs_edges board val"
  show ?case
  proof (cases "current \<in> set goal")
    case True
    then show ?thesis by simp
  next
    case ng: False
    have gv: "g \<notin> visited" using "2.prems"(2,4) by auto
    show ?thesis
    proof (cases "current \<in> visited")
      case True
      have inv: "\<forall>v \<in> visited. \<forall>n. (v, n) \<in> ?E \<longrightarrow> n \<in> visited \<or> n \<in> set stack"
        using "2.prems"(5) True by auto
      have "\<exists>s' \<in> set stack. (s', g) \<in> ?E\<^sup>*"
      proof (cases "s = current")
        case True
        with "2.prems"(3) \<open>current \<in> visited\<close> gv inv show ?thesis
          by (intro visited_path_leaves [where visited = visited]) auto
      next
        case False
        with "2.prems"(1,3) show ?thesis by auto
      qed
      then obtain s' where "s' \<in> set stack" "(s', g) \<in> ?E\<^sup>*" by blast
      from "2.IH"(2) [OF ng _ this(1) "2.prems"(2) this(2) "2.prems"(4) inv] True ng
      show ?thesis by simp
    next
      case False
      let ?ns = "filter (\<lambda>neighbor. cell_at board neighbor = val) (get_neighbors current)"
      let ?stack = "rev ?ns @ stack"
      have succ: "n \<in> set ?ns" if "(current, n) \<in> ?E" for n
        using that by (simp add: dfs_edges_def)
      have inv1: "\<forall>v \<in> insert current visited. v \<notin> set goal"
        using "2.prems"(4) ng by simp
      have inv2: "\<forall>v \<in> insert current visited. \<forall>n. (v, n) \<in> ?E
                    \<longrightarrow> n \<in> insert current visited \<or> n \<in> set ?stack"
        using "2.prems"(5) succ by auto
      have "\<exists>s' \<in> set ?stack. (s', g) \<in> ?E\<^sup>*"
      proof (cases "s = current")
        case True
        have "current \<noteq> g" using ng "2.prems"(2) by auto
        with "2.prems"(3) True obtain n where "(current, n) \<in> ?E" "(n, g) \<in> ?E\<^sup>*"
          by (metis converse_rtranclE)
        with succ show ?thesis by auto
      next
        case False
        with "2.prems"(1,3) show ?thesis by auto
      qed
      then obtain s' where "s' \<in> set ?stack" "(s', g) \<in> ?E\<^sup>*" by blast
      from "2.IH"(1) [OF ng False this(1) "2.prems"(2) this(2) inv1 inv2] False ng
      show ?thesis by simp
    qed
  qed
qed

lemma check_winner_loop_iff:
  "check_winner_loop board val goal stack {} \<longleftrightarrow>
     (\<exists>s \<in> set stack. \<exists>g \<in> set goal. (s, g) \<in> (dfs_edges board val)\<^sup>*)"
  using check_winner_loop_sound [of board val goal stack "{}"]
    check_winner_loop_complete [of _ stack _ goal board val "{}"]
  by auto

lemma hex_adjacent_neighbors: "hex_adjacent c n \<longleftrightarrow> c < 16 \<and> n \<in> set (get_neighbors c)"
  unfolding hex_adjacent_def get_neighbors_coords directions_def by auto

lemma stone_edges_subset: "stone_edges board p \<subseteq> dfs_edges board p"
  by (auto simp: stone_edges_def dfs_edges_def hex_adjacent_neighbors)

lemma dfs_path_stones:
  assumes "(s, g) \<in> (dfs_edges board p)\<^sup>*" "s < 16" "cell_at board s = p"
  shows "(s, g) \<in> (stone_edges board p)\<^sup>* \<and> g < 16 \<and> cell_at board g = p"
  using assms(1)
proof (induction rule: rtrancl_induct)
  case base
  with assms(2,3) show ?case by simp
next
  case (step y z)
  from step.hyps(2) have z: "z \<in> set (get_neighbors y)" "cell_at board z = p"
    by (simp_all add: dfs_edges_def)
  with step.IH have "(y, z) \<in> stone_edges board p"
    by (simp add: stone_edges_def hex_adjacent_neighbors)
  with step.IH z get_neighbors_bound [OF z(1)] show ?case by auto
qed

lemma last_of_four:
  assumes "length xs = 4"
  shows "last xs = xs ! 3"
proof -
  from assms have "xs \<noteq> []" by auto
  from last_conv_nth [OF this] assms show ?thesis by simp
qed

lemma mem_filter_upt: "c \<in> set (filter P [a..<b]) \<longleftrightarrow> a \<le> c \<and> c < b \<and> P c"
  by auto

lemma mem_filter_map_upt:
  "c \<in> set (filter P (map f [a..<b])) \<longleftrightarrow> (\<exists>k. a \<le> k \<and> k < b \<and> c = f k) \<and> P c"
  by auto

lemma row_of_cell:
  fixes c :: nat
  shows "c < 16 \<and> c div 4 = 0 \<longleftrightarrow> c < 4"
    and "c < 16 \<and> c div 4 = 3 \<longleftrightarrow> 12 \<le> c \<and> c < 16"
    and "c < 16 \<and> c mod 4 = 0 \<longleftrightarrow> (\<exists>k. 0 \<le> k \<and> k < 4 \<and> c = k * 4)"
    and "c < 16 \<and> c mod 4 = 3 \<longleftrightarrow> (\<exists>k. 0 \<le> k \<and> k < 4 \<and> c = 4 - 1 + k * 4)"
proof -
  show "c < 16 \<and> c div 4 = 0 \<longleftrightarrow> c < 4" by auto
  show "c < 16 \<and> c div 4 = 3 \<longleftrightarrow> 12 \<le> c \<and> c < 16" by auto
  show "c < 16 \<and> c mod 4 = 0 \<longleftrightarrow> (\<exists>k. 0 \<le> k \<and> k < 4 \<and> c = k * 4)"
  proof
    assume a: "c < 16 \<and> c mod 4 = 0"
    then have "c div 4 < 4" "c = (c div 4) * 4" by auto
    then show "\<exists>k. 0 \<le> k \<and> k < 4 \<and> c = k * 4" by blast
  qed auto
  show "c < 16 \<and> c mod 4 = 3 \<longleftrightarrow> (\<exists>k. 0 \<le> k \<and> k < 4 \<and> c = 4 - 1 + k * 4)"
  proof
    assume a: "c < 16 \<and> c mod 4 = 3"
    then have "c div 4 < 4" "c = 4 - 1 + (c div 4) * 4"
      using div_mult_mod_eq [of c 4] by auto
    then show "\<exists>k. 0 \<le> k \<and> k < 4 \<and> c = 4 - 1 + k * 4" by blast
  qed auto
qed

lemma edge_cells_player1:
  assumes "wf_board board"
  shows "set (filter (\<lambda>i. board ! 0 ! i = 1) [0..<SIZE])
           = {c \<in> start_edge 1. cell_at board c = 1}"
    and "set (filter (\<lambda>i. last board ! (i mod SIZE) = 1) [SIZE * (SIZE - 1)..<SIZE * SIZE])
           = {c \<in> goal_edge 1. cell_at board c = 1}"
proof -
  have l: "last board = board ! 3"
    using assms by (simp add: wf_board_def last_of_four)
  show "set (filter (\<lambda>i. board ! 0 ! i = 1) [0..<SIZE])
           = {c \<in> start_edge 1. cell_at board c = 1}"
  proof (rule set_eqI)
    fix c :: nat
    have "c < 4 \<Longrightarrow> c div 4 = 0 \<and> c mod 4 = c" by simp
    then show "c \<in> set (filter (\<lambda>i. board ! 0 ! i = 1) [0..<SIZE])
        \<longleftrightarrow> c \<in> {c \<in> start_edge 1. cell_at board c = 1}"
      unfolding mem_filter_upt start_edge_def if_P [OF refl] mem_Collect_eq cell_at_def
        row_of_cell(1)
      by auto
  qed
  show "set (filter (\<lambda>i. last board ! (i mod SIZE) = 1) [SIZE * (SIZE - 1)..<SIZE * SIZE])
           = {c \<in> goal_edge 1. cell_at board c = 1}"
  proof (rule set_eqI)
    fix c :: nat
    have "12 \<le> c \<and> c < 16 \<Longrightarrow> c div 4 = 3" by auto
    then show "c \<in> set (filter (\<lambda>i. last board ! (i mod SIZE) = 1)
                            [SIZE * (SIZE - 1)..<SIZE * SIZE])
        \<longleftrightarrow> c \<in> {c \<in> goal_edge 1. cell_at board c = 1}"
      unfolding mem_filter_upt goal_edge_def if_P [OF refl] mem_Collect_eq cell_at_def
        row_of_cell(2) l
      by auto
  qed
qed

lemma edge_cells_other:
  assumes "wf_board board" "p \<noteq> 1"
  shows "set (filter (\<lambda>i. board ! (i div SIZE) ! 0 = q) (map (\<lambda>k. k * SIZE) [0..<SIZE]))
           = {c \<in> start_edge p. cell_at board c = q}"
    and "set (filter (\<lambda>i. last (board ! (i div SIZE)) = q)
               (map (\<lambda>k. SIZE - 1 + k * SIZE) [0..<SIZE]))
           = {c \<in> goal_edge p. cell_at board c = q}"
proof -
  have l: "last (board ! (c div 4)) = board ! (c div 4) ! 3" if "c < 16" for c
  proof -
    from that have "c div 4 < 4" by auto
    from wf_board_row [OF assms(1) this] show ?thesis by (rule last_of_four)
  qed
  show "set (filter (\<lambda>i. board ! (i div SIZE) ! 0 = q) (map (\<lambda>k. k * SIZE) [0..<SIZE]))
           = {c \<in> start_edge p. cell_at board c = q}"
  proof (rule set_eqI)
    fix c :: nat
    show "c \<in> set (filter (\<lambda>i. board ! (i div SIZE) ! 0 = q) (map (\<lambda>k. k * SIZE) [0..<SIZE]))
        \<longleftrightarrow> c \<in> {c \<in> start_edge p. cell_at board c = q}"
      unfolding mem_filter_map_upt start_edge_def if_not_P [OF assms(2)] mem_Collect_eq
        cell_at_def row_of_cell(3) [symmetric]
      by auto
  qed
  show "set (filter (\<lambda>i. last (board ! (i div SIZE)) = q)
               (map (\<lambda>k. SIZE - 1 + k * SIZE) [0..<SIZE]))
           = {c \<in> goal_edge p. cell_at board c = q}"
  proof (rule set_eqI)
    fix c :: nat
    show "c \<in> set (filter (\<lambda>i. last (board ! (i div SIZE)) = q)
                     (map (\<lambda>k. SIZE - 1 + k * SIZE) [0..<SIZE]))
        \<longleftrightarrow> c \<in> {c \<in> goal_edge p. cell_at board c = q}"
      unfolding mem_filter_map_upt goal_edge_def if_not_P [OF assms(2)] mem_Collect_eq
        cell_at_def row_of_cell(4) [symmetric]
      using l [of c] by auto
  qed
qed

lemma check_winner_dfs:
  assumes "wf_board board" "p = 1 \<or> p = - 1"
  shows "check_winner board p \<longleftrightarrow>
           (\<exists>s \<in> {c \<in> start_edge p. cell_at board c = p}.
            \<exists>g \<in> {c \<in> goal_edge p. cell_at board c = p}. (s, g) \<in> (dfs_edges board p)\<^sup>*)"
proof (cases "p = 1")
  case True
  show ?thesis
    unfolding True check_winner_def Let_def if_P [OF refl] check_winner_loop_iff set_rev
      edge_cells_player1 [OF assms(1)] ..
next
  case False
  with assms(2) have p: "p = - 1" by simp
  have ne: "(- 1 :: int) \<noteq> 1" by simp
  show ?thesis
    unfolding p check_winner_def Let_def if_not_P [OF ne] check_winner_loop_iff set_rev
      edge_cells_other [OF assms(1) ne] ..
qed

lemma check_winner_connection:
  assumes "wf_board board" "p = 1 \<or> p = - 1"
  shows "check_winner board p \<longleftrightarrow> has_connection board p"
proof
  assume "check_winner board p"
  then obtain s g where s: "s \<in> start_edge p" "cell_at board s = p"
    and g: "g \<in> goal_edge p" and path: "(s, g) \<in> (dfs_edges board p)\<^sup>*"
    unfolding check_winner_dfs [OF assms] by auto
  from s(1) have "s < 16" by (auto simp: start_edge_def split: if_splits)
  from dfs_path_stones [OF path this s(2)] s g show "has_connection board p"
    unfolding has_connection_def by blast
next
  assume "has_connection board p"
  then obtain s g where s: "s \<in> start_edge p" "cell_at board s = p"
    and g: "g \<in> goal_edge p" and path: "(s, g) \<in> (stone_edges board p)\<^sup>*"
    unfolding has_connection_def by blast
  from path have d: "(s, g) \<in> (dfs_edges board p)\<^sup>*"
    using rtrancl_mono [OF stone_edges_subset] by blast
  from s(1) have "s < 16" by (auto simp: start_edge_def split: if_splits)
  from dfs_path_stones [OF d this s(2)] have "cell_at board g = p" by simp
  with s g d show "check_winner board p"
    unfolding check_winner_dfs [OF assms] by blast
qed

section \<open>Pruned against full-width search\<close>

subsection \<open>Order facts about scores\<close>

lemma score_neg_neg [simp]: "- (- x) = (x :: score)"
  by (cases x) simp_all



lemma score_le_PosInf [simp]: "x \<le> PosInf"
  by (cases x) simp_all

lemma score_PosInf_le [simp]: "PosInf \<le> x \<longleftrightarrow> x = PosInf"
  by (cases x) simp_all



subsection \<open>Nodes whose children are leaves\<close>








subsection \<open>Caches of the two searches\<close>













subsection \<open>The root of the search\<close>




section \<open>Claims\<close>

text \<open>
  C8. For a well-formed board and a cell index in range, \<open>apply_action\<close> raises the
  illegal-move error (ValueError) exactly when the cell is occupied; whenever it raises
  (for any action at all) the board is left as it was; and when it does not raise, the
  cell was empty and afterwards holds \<open>player\<close>, every other cell keeping its value.
\<close>

theorem C8_apply_action:
  assumes "wf_board board" "0 \<le> cell" "cell < 16"
  shows "(fst (apply_action board cell player) = Inl ValueError
            \<longleftrightarrow> cell_at board (nat cell) \<noteq> 0)
       \<and> (\<forall>a e. fst (apply_action board a player) = Inl e
            \<longrightarrow> snd (apply_action board a player) = board)
       \<and> (fst (apply_action board cell player) \<noteq> Inl ValueError \<longrightarrow>
            fst (apply_action board cell player) = Inr ()
          \<and> cell_at board (nat cell) = 0
          \<and> wf_board (snd (apply_action board cell player))
          \<and> (\<forall>c < 16. cell_at (snd (apply_action board cell player)) c
                        = (if c = nat cell then player else cell_at board c)))"
proof -
  have atomic: "snd (apply_action board a player) = board"
    if "fst (apply_action board a player) = Inl e" for a e
    using that
    by (auto simp: apply_action_def Let_def split: sum.splits option.splits if_splits)
  have c: "nat cell < 16" using assms by simp
  show ?thesis
    using atomic assms c
    by (auto simp: apply_action_in_range cell_at_set_cell wf_board_set_cell)
qed

theorem C8_apply_action_witness:
  "fst (apply_action ex_board 1 1) = Inl ValueError
 \<and> snd (apply_action ex_board 1 1) = ex_board
 \<and> fst (apply_action ex_board 3 1) = Inr ()
 \<and> snd (apply_action ex_board 3 1) = [[-1, -1, -1, 1], [0, 1, 0, 0], [0, 1, 0, 0], [0, 0, 1, 0]]
 \<and> cell_at (snd (apply_action ex_board 3 1)) 3 = 1"
proof -
  have wf: "wf_board ex_board" by (simp add: wf_board_def ex_board_def)
  have occ: "cell_at ex_board (nat 1) \<noteq> 0" "cell_at ex_board (nat 3) = 0"
    by (simp_all add: cell_at_def ex_board_def)
  have a: "snd (apply_action ex_board 3 1) = [[-1, -1, -1, 1], [0, 1, 0, 0], [0, 1, 0, 0], [0, 0, 1, 0]]"
    by (simp add: apply_action_def is_valid_action_def py_get_def py_norm_def ex_board_def)
  from C8_apply_action [OF wf, of 1 1] C8_apply_action [OF wf, of 3 1] occ a
  show ?thesis by simp
qed

text \<open>
  C3. On a well-formed board, if the opponent \<open>- player\<close> already has a winning
  connection, \<open>negamax\<close> returns
  the score \<open>-999999 + depth\<close> and no move, whatever the depth, the window, the cache
  and the remaining recursion allowance are; board and cache are returned untouched.
\<close>

theorem C3_terminal_check:
  assumes "wf_board board" "check_winner board (- player)"
  shows "negamax fuel zr board depth alpha beta player cache
           = Some ((Fin (- 999999 + depth), None), board, cache)"
  using assms(2) by (rule negamax_terminal)

theorem C3_terminal_check_witness:
  "wf_board ex_won \<and> check_winner ex_won (- 1)
 \<and> negamax 0 ex_zobrist ex_won 5 NegInf PosInf 1 Map.empty
     = Some ((Fin (- 999994), None), ex_won, Map.empty)"
proof -
  have wf: "wf_board ex_won" by code_simp
  have w: "check_winner ex_won (- 1)" by code_simp
  from C3_terminal_check [OF wf w, of 0 ex_zobrist 5 NegInf PosInf Map.empty] wf w
  show ?thesis by simp
qed

text \<open>
  C4. On a well-formed board \<open>evaluate_board\<close> is 0 when neither side has a connection, -9999 when only the
  player's own connection is missing, 9999 when only the opponent's is missing, and
  the opponent's distance minus the player's own distance otherwise.
\<close>

theorem C4_evaluate_board:
  assumes "wf_board board"
  shows "evaluate_board board player =
     (case (shortest_path_length board player, shortest_path_length board (- player)) of
        (None, None) \<Rightarrow> 0
      | (None, Some d_opp) \<Rightarrow> - 9999
      | (Some d_self, None) \<Rightarrow> 9999
      | (Some d_self, Some d_opp) \<Rightarrow> d_opp - d_self)"
  by (simp add: evaluate_board_def Let_def split: option.splits)

theorem C4_evaluate_board_witness:
  "wf_board ex_column
 \<and> shortest_path_length ex_column 1 = Some 3
 \<and> shortest_path_length ex_column (- 1) = None
 \<and> evaluate_board ex_column 1 = 9999"
proof -
  have wf: "wf_board ex_column" by code_simp
  have s: "shortest_path_length ex_column 1 = Some 3"
          "shortest_path_length ex_column (- 1) = None"
    by code_simp+
  from C4_evaluate_board [OF wf, of 1] wf s show ?thesis by simp
qed

text \<open>
  C9. The heuristic is antisymmetric in the player argument:
  \<open>evaluate_board board (- p) = - evaluate_board board p\<close>, for every well-formed
  board and every integer \<open>p\<close>, in particular for 1 and -1.
\<close>

theorem C9_evaluate_antisymmetric:
  assumes "wf_board board"
  shows "evaluate_board board (- p) = - evaluate_board board p"
  by (simp add: evaluate_board_def Let_def split: option.splits)

theorem C9_evaluate_antisymmetric_witness:
  "wf_board ex_column
 \<and> evaluate_board ex_column (- 1) = - 9999 \<and> evaluate_board ex_column 1 = 9999"
proof -
  have wf: "wf_board ex_column" by code_simp
  have "evaluate_board ex_column 1 = 9999" by code_simp
  with C9_evaluate_antisymmetric [OF wf, of 1] wf show ?thesis by simp
qed

text \<open>
  C10. On a well-formed board, for every player (in particular 1 and -1), whenever
  \<open>shortest_path_length\<close> returns a number, that number is at least
  \<open>SIZE - 1 = 3\<close>; in particular it is never 0.
\<close>

theorem C10_shortest_path_at_least_3:
  assumes "wf_board board" "shortest_path_length board p = Some d"
  shows "d \<ge> int SIZE - 1 \<and> d \<noteq> 0"
  using shortest_path_length_lower_bound [OF assms(2)] by simp

theorem C10_shortest_path_at_least_3_witness:
  "wf_board ex_column \<and> shortest_path_length ex_column 1 = Some 3
 \<and> (3::int) \<ge> int SIZE - 1 \<and> (3::int) \<noteq> 0"
proof -
  have wf: "wf_board ex_column" by code_simp
  have s: "shortest_path_length ex_column 1 = Some 3" by code_simp
  from C10_shortest_path_at_least_3 [OF wf s] wf s show ?thesis by simp
qed

text \<open>
  C1 (as stated). The claim that \<open>find_best_move\<close> returns no move only when the
  board has no empty cell fails: in \<open>ex_won\<close> player -1 has already connected, cell 6 is
  empty, and the search for player 1 at depth 1 returns no move.
\<close>

theorem C1_none_with_empty_cell_counterexample:
  "map_option fst (find_best_move 1 ex_zobrist ex_won 1 1 None) = Some None
 \<and> wf_board ex_won \<and> cell_at ex_won 6 = 0"
  by code_simp

text \<open>
  C1 (amended). For a well-formed board, any player and a positive depth within the
  recursion allowance, \<open>find_best_move\<close> with a fresh cache returns, leaving the board
  as it was; the result is either no move or an empty cell of the input board, and it
  is no move exactly when the opponent \<open>- player\<close> already has a winning connection
  or the board has no empty cell.
\<close>

theorem C1_find_best_move:
  assumes "wf_board board" "0 < max_depth" "max_depth \<le> int fuel"
  shows "\<exists>move cache'.
           find_best_move fuel zr board player max_depth None = Some (move, board, cache')
         \<and> (move = None \<longleftrightarrow>
              check_winner board (- player) \<or> (\<forall>c < 16. cell_at board c \<noteq> 0))
         \<and> (\<forall>a. move = Some a \<longrightarrow> a < 16 \<and> cell_at board a = 0)"
proof -
  from negamax_returns [of max_depth fuel zr] assms(2,3)
  obtain s m b' c' where
    n: "negamax fuel zr board max_depth NegInf PosInf player Map.empty = Some ((s, m), b', c')"
    unfolding returns_at_def by (metis less_imp_le not_None_eq prod.collapse)
  have b': "b' = board"
    using negamax_restores [of fuel zr] n unfolding restores_def by blast
  have "fin_cache Map.empty" by (simp add: fin_cache_def)
  from negamax_move [OF n _ this] assms(2)
  have "(m = None \<longleftrightarrow> check_winner board (- player) \<or> empty_cells board = [])
      \<and> (\<forall>a. m = Some a \<longrightarrow> a \<in> set (empty_cells board))"
    by simp
  then have "(m = None \<longleftrightarrow> check_winner board (- player) \<or> (\<forall>c < 16. cell_at board c \<noteq> 0))
      \<and> (\<forall>a. m = Some a \<longrightarrow> a < 16 \<and> cell_at board a = 0)"
    by (simp add: empty_cells_Nil set_empty_cells)
  moreover have "find_best_move fuel zr board player max_depth None = Some (m, board, c')"
    using n b' by (simp add: find_best_move_def)
  ultimately show ?thesis by blast
qed

theorem C1_find_best_move_witness:
  "wf_board ex_late \<and> (0::int) < 1 \<and> (1::int) \<le> int 1
 \<and> map_option fst (find_best_move 1 ex_zobrist ex_late 1 1 None) = Some (Some 3)
 \<and> cell_at ex_late 3 = 0 \<and> \<not> check_winner ex_late (- 1)
 \<and> (\<exists>move cache'.
       find_best_move 1 ex_zobrist ex_late 1 1 None = Some (move, ex_late, cache')
     \<and> (\<forall>a. move = Some a \<longrightarrow> a < 16 \<and> cell_at ex_late a = 0))"
proof -
  have wf: "wf_board ex_late" by code_simp
  have v: "map_option fst (find_best_move 1 ex_zobrist ex_late 1 1 None) = Some (Some 3)"
          "cell_at ex_late 3 = 0" "\<not> check_winner ex_late (- 1)"
    by code_simp+
  from C1_find_best_move [OF wf, of 1 1 ex_zobrist 1] wf v show ?thesis by auto
qed

text \<open>
  C2. Whenever \<open>negamax\<close> returns (and hence whenever \<open>find_best_move\<close> returns), the
  board it hands back is the board it was given, cell for cell. It does return when the
  depth is between 0 and the recursion allowance, and also, for a player other than 0
  and any depth, when the allowance is at least 16 (the number of cells).
\<close>

theorem C2_board_restored:
  assumes "wf_board board"
  shows "(\<forall>r board' cache'.
            negamax fuel zr board depth alpha beta player cache = Some (r, board', cache')
            \<longrightarrow> board' = board)
       \<and> (\<forall>move board' cache'.
            find_best_move fuel zr board player depth cache_opt = Some (move, board', cache')
            \<longrightarrow> board' = board)
       \<and> ((0 \<le> depth \<and> depth \<le> int fuel) \<or> (player \<noteq> 0 \<and> 16 \<le> fuel) \<longrightarrow>
            (\<exists>r cache'.
               negamax fuel zr board depth alpha beta player cache = Some (r, board, cache')))"
proof -
  have r: "board' = board"
    if "negamax fuel zr board depth al be player c = Some (r, board', cache')"
    for r board' cache' al be c
    using negamax_restores [of fuel zr] that unfolding restores_def by blast
  have f: "board' = board"
    if "find_best_move fuel zr board player depth cache_opt = Some (move, board', cache')"
    for move board' cache'
    using that r unfolding find_best_move_def Let_def
    by (auto split: option.splits prod.splits)
  have t: "negamax fuel zr board depth alpha beta player cache \<noteq> None"
    if "(0 \<le> depth \<and> depth \<le> int fuel) \<or> (player \<noteq> 0 \<and> 16 \<le> fuel)"
  proof -
    from that consider "0 \<le> depth" "depth \<le> int fuel" | "player \<noteq> 0" "16 \<le> fuel" by blast
    then show ?thesis
    proof cases
      case 1
      with negamax_returns [of depth fuel zr] show ?thesis by (simp add: returns_at_def)
    next
      case 2
      with length_empty_cells [of board] have "length (empty_cells board) \<le> fuel" by simp
      from negamax_returns_filled [OF assms 2(1) this] show ?thesis .
    qed
  qed
  have "\<exists>r cache'. negamax fuel zr board depth alpha beta player cache = Some (r, board, cache')"
    if "(0 \<le> depth \<and> depth \<le> int fuel) \<or> (player \<noteq> 0 \<and> 16 \<le> fuel)"
  proof -
    from t [OF that] obtain r b' c' where
      "negamax fuel zr board depth alpha beta player cache = Some (r, b', c')"
      by (metis not_None_eq prod.collapse)
    with r [OF this] show ?thesis by blast
  qed
  with r f show ?thesis by blast
qed

theorem C2_board_restored_witness:
  "wf_board ex_late
 \<and> map_option (fst \<circ> snd) (negamax 2 ex_zobrist ex_late 2 NegInf PosInf 1 Map.empty)
     = Some ex_late
 \<and> map_option (fst \<circ> snd) (find_best_move 2 ex_zobrist ex_late 1 2 None) = Some ex_late"
proof -
  have wf: "wf_board ex_late" by code_simp
  have d: "(0::int) \<le> 2 \<and> (2::int) \<le> int 2" by simp
  from C2_board_restored [OF wf, of 2 ex_zobrist 2 NegInf PosInf 1 Map.empty None] d
  obtain r cache' where
    n: "negamax 2 ex_zobrist ex_late 2 NegInf PosInf 1 Map.empty = Some (r, ex_late, cache')"
    by blast
  then have "find_best_move 2 ex_zobrist ex_late 1 2 None = Some (snd r, ex_late, cache')"
    by (cases r) (simp add: find_best_move_def)
  with n wf show ?thesis by simp
qed

text \<open>
  C6. Two boards with the same cell contents have the same hash; in particular, placing
  the same stones (cells in range, players 1 or -1) on a well-formed board in any two
  orders succeeds in both orders or in neither and gives the same hash. On a board whose
  cells hold only -1, 0 and 1 the hash is the exclusive-or, over the occupied cells, of
  the table entry for the cell and its occupying player.
\<close>

theorem C6_hash_order_independent:
  assumes "wf_board board" "stones_ok xs" "mset ys = mset xs"
    and "fst (place_stones board xs) = Inr ()"
  shows "fst (place_stones board ys) = Inr ()
       \<and> compute_zobrist_hash zr (snd (place_stones board ys))
           = compute_zobrist_hash zr (snd (place_stones board xs))
       \<and> (\<forall>b b'. (\<forall>k < 16. cell_at b k = cell_at b' k)
             \<longrightarrow> compute_zobrist_hash zr b = compute_zobrist_hash zr b')
       \<and> (\<forall>b. (\<forall>k < 16. cell_at b k \<in> {- 1, 0, 1})
             \<longrightarrow> compute_zobrist_hash zr b = xor_of_occupied zr b)"
proof (intro conjI allI impI)
  show "fst (place_stones board ys) = Inr ()"
    by (rule place_stones_permuted(1) [OF assms])
  show "compute_zobrist_hash zr (snd (place_stones board ys))
      = compute_zobrist_hash zr (snd (place_stones board xs))"
    by (simp only: place_stones_permuted(2) [OF assms])
next
  fix b b' :: board
  assume "\<forall>k < 16. cell_at b k = cell_at b' k"
  then show "compute_zobrist_hash zr b = compute_zobrist_hash zr b'"
    by (intro compute_zobrist_hash_cong) simp
next
  fix b :: board
  assume "\<forall>k < 16. cell_at b k \<in> {- 1, 0, 1}"
  then show "compute_zobrist_hash zr b = xor_of_occupied zr b"
    by (rule compute_zobrist_hash_xor)
qed

theorem C6_hash_order_independent_witness:
  "wf_board (initialize_board 4)
 \<and> stones_ok [(0, 1), (5, - 1), (10, 1)]
 \<and> fst (place_stones (initialize_board 4) [(0, 1), (5, - 1), (10, 1)]) = Inr ()
 \<and> fst (place_stones (initialize_board 4) [(10, 1), (0, 1), (5, - 1)]) = Inr ()
 \<and> compute_zobrist_hash ex_zobrist
      (snd (place_stones (initialize_board 4) [(10, 1), (0, 1), (5, - 1)]))
    = compute_zobrist_hash ex_zobrist
      (snd (place_stones (initialize_board 4) [(0, 1), (5, - 1), (10, 1)]))
 \<and> compute_zobrist_hash ex_zobrist
      (snd (place_stones (initialize_board 4) [(0, 1), (5, - 1), (10, 1)])) = 1050625"
proof -
  have wf: "wf_board (initialize_board 4)" by code_simp
  have ok: "stones_ok [(0, 1), (5, - 1), (10, 1)]" by (simp add: stones_ok_def)
  have m: "mset [(10, 1), (0, 1), (5, - 1 :: int)] = mset [(0 :: int, 1), (5, - 1), (10, 1)]"
    by simp
  have s: "fst (place_stones (initialize_board 4) [(0, 1), (5, - 1), (10, 1)]) = Inr ()"
    by code_simp
  have v: "compute_zobrist_hash ex_zobrist
      (snd (place_stones (initialize_board 4) [(0, 1), (5, - 1), (10, 1)])) = 1050625"
    by code_simp
  from C6_hash_order_independent [OF wf ok m s, of ex_zobrist] wf ok s v
  show ?thesis by simp
qed

text \<open>
  C7. For a well-formed board and a player 1 or -1, \<open>check_winner\<close> is true exactly when
  the player's stones contain a chain of hex-adjacent cells from the player's start edge
  (top row for player 1, left column for player -1) to the goal edge (bottom row, right
  column). On the 4 by 4 board where player -1 holds exactly cells 0, 1, 2, 3 it is true;
  where player -1 holds exactly cells 0, 1, 2 it is false.
\<close>

theorem C7_check_winner:
  assumes "wf_board board" "player = 1 \<or> player = - 1"
  shows "(check_winner board player \<longleftrightarrow> has_connection board player)
       \<and> check_winner ex_row_full (- 1) \<and> \<not> check_winner ex_chain3 (- 1)"
proof -
  have "check_winner ex_row_full (- 1)" "\<not> check_winner ex_chain3 (- 1)"
    by code_simp+
  with check_winner_connection [OF assms] show ?thesis by simp
qed

theorem C7_check_winner_witness:
  "wf_board ex_row_full \<and> check_winner ex_row_full (- 1) \<and> has_connection ex_row_full (- 1)
 \<and> wf_board ex_chain3 \<and> \<not> check_winner ex_chain3 (- 1) \<and> \<not> has_connection ex_chain3 (- 1)"
proof -
  have wf: "wf_board ex_row_full" "wf_board ex_chain3" by code_simp+
  have p: "(- 1 :: int) = 1 \<or> (- 1 :: int) = - 1" by simp
  from C7_check_winner [OF wf(1) p] C7_check_winner [OF wf(2) p] wf
  show ?thesis by simp
qed



end
